theory Spec2Isabelle
  imports Complex_Main "HOL-Library.Word"
begin

unbundle bit_operations_syntax

section \<open>The gated frequency counter of the tracking VFO\<close>

text \<open>
  The program runs on an ATmega328P. A C \<open>int\<close> is 16 bits wide there, a \<open>byte\<close> 8 bits,
  \<open>uint16_t\<close> 16 bits and \<open>uint32_t\<close> 32 bits; all of them are modelled as machine words,
  so that every increment and decrement wraps as it does on the chip. A signed value is a
  word read through \<open>sint\<close>.

  Timer 1 counts rising edges of the tracked signal in the 16-bit register \<open>TCNT1\<close> and
  raises \<open>TIMER1_OVF_vect\<close> when the register wraps. Timer 2 counts the prescaled CPU
  clock and raises \<open>TIMER2_OVF_vect\<close> every 16.384 ms. The variables shared between the
  interrupt handlers and the main program are the four \<open>volatile\<close> globals of the sketch.
\<close>

subsection \<open>Shared state and interrupt handlers\<close>

record gate_state =
  TCNT1 :: "16 word"
  vGateSegCountdown :: "16 word"
  vCtr1OvrFlows :: "8 word"
  vCtr1OvrFlowsCopy :: "8 word"
  vCtr1Copy :: "16 word"

definition SEGS_PER_GATE :: "16 word" where
  "SEGS_PER_GATE = 6"

text \<open>The initialisers of the globals, with the counter register as \<open>setupTimers\<close> clears it.\<close>

definition gate_init :: gate_state where
  "gate_init = \<lparr>TCNT1 = 0, vGateSegCountdown = SEGS_PER_GATE, vCtr1OvrFlows = 0,
     vCtr1OvrFlowsCopy = 0, vCtr1Copy = 0\<rparr>"

text \<open>\<open>ISR (TIMER1_OVF_vect)\<close>: \<open>++vCtr1OvrFlows\<close>.\<close>

definition TIMER1_OVF_vect :: "gate_state \<Rightarrow> gate_state" where
  "TIMER1_OVF_vect s = s\<lparr>vCtr1OvrFlows := vCtr1OvrFlows s + 1\<rparr>"

text \<open>
  \<open>ISR (TIMER2_OVF_vect)\<close>: the countdown is decremented first and then compared with
  zero; only when it is exactly zero are the snapshot taken and the accumulators cleared.
\<close>

definition TIMER2_OVF_vect :: "gate_state \<Rightarrow> gate_state" where
  "TIMER2_OVF_vect s =
     (let s1 = s\<lparr>vGateSegCountdown := vGateSegCountdown s - 1\<rparr> in
      if vGateSegCountdown s1 = 0 then
        (let s2 = s1\<lparr>vCtr1Copy := TCNT1 s1\<rparr>;
             s3 = s2\<lparr>TCNT1 := 0\<rparr>;
             s4 = s3\<lparr>vCtr1OvrFlowsCopy := vCtr1OvrFlows s3\<rparr>
         in s4\<lparr>vCtr1OvrFlows := 0\<rparr>)
      else s1)"

subsection \<open>Hardware events\<close>

text \<open>
  One rising edge on pin D5 increments \<open>TCNT1\<close>; when the register wraps to zero the
  overflow interrupt of timer 1 runs. The handlers are taken to run to completion at the
  event that raises them.
\<close>

definition sig_edge :: "gate_state \<Rightarrow> gate_state" where
  "sig_edge s =
     (let s1 = s\<lparr>TCNT1 := TCNT1 s + 1\<rparr> in
      if TCNT1 s1 = 0 then TIMER1_OVF_vect s1 else s1)"

text \<open>
  The environment of the main program is a sequence of hardware events: a burst of \<open>n\<close>
  signal edges, or one overflow of timer 2.
\<close>

datatype event = Edges nat | T2Overflow

fun hw_step :: "event \<Rightarrow> gate_state \<Rightarrow> gate_state" where
  "hw_step (Edges n) s = (sig_edge ^^ n) s"
| "hw_step T2Overflow s = TIMER2_OVF_vect s"

fun hw_run :: "event list \<Rightarrow> gate_state \<Rightarrow> gate_state" where
  "hw_run [] s = s"
| "hw_run (e # es) s = hw_run es (hw_step e s)"

subsection \<open>\<open>getGatedCount\<close>\<close>

text \<open>
  The empty \<open>do\<close>-\<open>while\<close> loop polls \<open>vGateSegCountdown > 0\<close> (a signed comparison). Between
  two polls the hardware may deliver an event. The loop leaves as soon as a poll finds the
  countdown not positive; when the events run out while it is still positive the function
  has not returned, which is the value \<open>None\<close>.

  This function takes the program to poll faster than the hardware delivers events (a poll
  takes about a microsecond, timer 2 overflows every 16.384 ms) and to run the three
  statements after the loop before the next event; events that arrive while the caller is
  busy are taken in by the first polls of the next call. Every statement and every
  handler is atomic. The statement-level model further down lets events fall between any
  two statements.
\<close>

fun gate_wait :: "gate_state \<Rightarrow> event list \<Rightarrow> (gate_state \<times> event list) option" where
  "gate_wait s [] = (if 0 <s vGateSegCountdown s then None else Some (s, []))"
| "gate_wait s (e # es) =
     (if 0 <s vGateSegCountdown s then gate_wait (hw_step e s) es else Some (s, e # es))"

text \<open>\<open>vGateSegCountdown = SEGS_PER_GATE\<close>\<close>

definition rearm :: "gate_state \<Rightarrow> gate_state" where
  "rearm s = s\<lparr>vGateSegCountdown := SEGS_PER_GATE\<rparr>"

text \<open>
  \<open>uint32_t gCount = vCtr1OvrFlowsCopy; gCount = (gCount << 16) + vCtr1Copy;\<close>
\<close>

definition load_ovf :: "gate_state \<Rightarrow> 32 word" where
  "load_ovf s = ucast (vCtr1OvrFlowsCopy s)"

definition add_copy :: "32 word \<Rightarrow> gate_state \<Rightarrow> 32 word" where
  "add_copy gCount s = push_bit 16 gCount + ucast (vCtr1Copy s)"

definition getGatedCount ::
  "gate_state \<Rightarrow> event list \<Rightarrow> (32 word \<times> gate_state \<times> event list) option" where
  "getGatedCount s evs =
     (case gate_wait s evs of
        None \<Rightarrow> None
      | Some (s1, rest) \<Rightarrow>
          (let s2 = rearm s1;
               gCount = load_ovf s2;
               gCount = add_copy gCount s2
           in Some (gCount, s2, rest)))"

text \<open>
  The same function statement by statement, for the order of its actions. The program
  counter names the point the main program has reached: \<open>Polling\<close> in the loop, \<open>Woken\<close>
  when a test of the loop condition has failed, \<open>Rearmed\<close> after the assignment to the
  countdown, \<open>Loaded\<close> after the first read, \<open>Returning\<close> with the result in \<open>gCount\<close>.
  One step runs one statement, and hardware events may fall between any two steps.
\<close>

datatype pc = Polling | Woken | Rearmed | Loaded | Returning

type_synonym thread = "pc \<times> 32 word \<times> gate_state"

fun main_step :: "thread \<Rightarrow> thread" where
  "main_step (Polling, gCount, s) =
     (if 0 <s vGateSegCountdown s then (Polling, gCount, s) else (Woken, gCount, s))"
| "main_step (Woken, gCount, s) = (Rearmed, gCount, rearm s)"
| "main_step (Rearmed, gCount, s) = (Loaded, load_ovf s, s)"
| "main_step (Loaded, gCount, s) = (Returning, add_copy gCount s, s)"
| "main_step (Returning, gCount, s) = (Returning, gCount, s)"

datatype action = Main | Hw event

fun act :: "action \<Rightarrow> thread \<Rightarrow> thread" where
  "act Main t = main_step t"
| "act (Hw e) (p, gCount, s) = (p, gCount, hw_step e s)"

fun exec :: "action list \<Rightarrow> thread \<Rightarrow> thread" where
  "exec [] t = t"
| "exec (a # as) t = exec as (act a t)"

text \<open>The hardware events of a schedule, in order.\<close>

fun hw_of :: "action list \<Rightarrow> event list" where
  "hw_of [] = []"
| "hw_of (Main # as) = hw_of as"
| "hw_of (Hw e # as) = e # hw_of as"

text \<open>The schedule in which the main program polls once before every event.\<close>

fun polling_schedule :: "event list \<Rightarrow> action list" where
  "polling_schedule [] = [Main, Main, Main, Main]"
| "polling_schedule (e # es) = Main # Hw e # polling_schedule es"

text \<open>Counting the events of a sequence.\<close>

fun t2_of :: "event list \<Rightarrow> nat" where
  "t2_of [] = 0"
| "t2_of (Edges n # es) = t2_of es"
| "t2_of (T2Overflow # es) = Suc (t2_of es)"

fun edges_of :: "event list \<Rightarrow> nat" where
  "edges_of [] = 0"
| "edges_of (Edges n # es) = n + edges_of es"
| "edges_of (T2Overflow # es) = edges_of es"

text \<open>The running count of timer 1: overflows in the high byte, the register below.\<close>

definition live :: "gate_state \<Rightarrow> nat" where
  "live s = unat (vCtr1OvrFlows s) * 65536 + unat (TCNT1 s)"

section \<open>The rest of the sketch\<close>

text \<open>
  On this processor a \<open>double\<close> is four bytes wide: the IEEE 754 single format, with 24
  significant bits and exponents from -126 to 127. A finite \<open>double\<close> is modelled by the
  real number it denotes, and \<open>double_round\<close> takes the exact result of an operation to
  the nearest number of the format, a tie going to the even significand. The largest
  finite \<open>double\<close> is about \<open>3.4e38\<close>; the numbers rounded here stay far below it (a count
  is below \<open>2 ^ 24\<close>, a scale factor of the sketch is near 10), and overflow to an infinity
  is outside the model.

  The gate duration, the scale factor and the product \<open>gatedCount * scaleFactor\<close> of
  \<open>loop\<close>, which give \<open>fDDS\<close> its value, are computed with this rounding. The tuning word
  of \<open>ddsSetFreq\<close> and the ratio of \<open>doCalib\<close> are computed with exact real numbers: what
  is stated about them is when they are produced and how they are tested, not their last
  bits. A \<open>double\<close> that can fail to be a finite number (the quotient of a division whose
  divisor may be zero, the bytes read from the EEPROM) is a \<open>real option\<close>, \<open>None\<close>
  standing for an infinity or a NaN: the range test the sketch applies to such a value
  fails.
\<close>

subsection \<open>Rounding to a \<open>double\<close>\<close>

text \<open>The number of binary digits of a natural number.\<close>

fun bit_width :: "nat \<Rightarrow> nat" where
  "bit_width n = (if n = 0 then 0 else Suc (bit_width (n div 2)))"

declare bit_width.simps [simp del]

text \<open>The nearest integer, a tie going to the even one.\<close>

definition round_even :: "real \<Rightarrow> int" where
  "round_even x =
     (let f = \<lfloor>x\<rfloor>; r = x - of_int f
      in if r < 1 / 2 then f else if 1 / 2 < r then f + 1 else if even f then f else f + 1)"

text \<open>
  The exponent of a positive number \<open>x\<close>: the \<open>e\<close> with \<open>2 ^ e \<le> x < 2 ^ (e + 1)\<close>, but not
  less than -126, where the subnormal numbers begin.
\<close>

definition double_exponent :: "real \<Rightarrow> int" where
  "double_exponent x =
     max (- 126)
       (if 1 \<le> x then int (bit_width (nat \<lfloor>x\<rfloor>)) - 1
        else - int (bit_width (nat (\<lceil>1 / x\<rceil> - 1))))"

text \<open>Numbers with exponent \<open>e\<close> are the multiples of \<open>2 ^ (e - 23)\<close>.\<close>

definition double_round :: "real \<Rightarrow> real" where
  "double_round x =
     (if x = 0 then 0
      else (let ulp = 2 powi (double_exponent \<bar>x\<bar> - 23)
            in sgn x * of_int (round_even (\<bar>x\<bar> / ulp)) * ulp))"

text \<open>Conversion of a \<open>uint32_t\<close> to \<open>double\<close>; exact below \<open>2 ^ 24\<close>.\<close>

definition uint32_to_double :: "32 word \<Rightarrow> real" where
  "uint32_to_double c = double_round (real (unat c))"

subsection \<open>Constants\<close>

definition F_MIN :: int where "F_MIN = 4950000"
definition F_MAX :: int where "F_MAX = 5550000"
definition F_MID :: int where "F_MID = (F_MAX + F_MIN) div 2"

text \<open>
  \<open>const double GATE_SEG_DUR = 0.016384; const double GATE_DUR = GATE_SEG_DUR * SEGS_PER_GATE;\<close>
  The literal denotes the nearest \<open>double\<close>, and the product is rounded.
\<close>

definition GATE_SEG_DUR :: real where "GATE_SEG_DUR = double_round 0.016384"
definition GATE_DUR :: real where
  "GATE_DUR = double_round (GATE_SEG_DUR * real_of_int (sint SEGS_PER_GATE))"

definition NO_BUTS_THRESH :: int where "NO_BUTS_THRESH = 853"
definition BTN_UP_THRESH :: int where "BTN_UP_THRESH = 511"
definition BTN_LOCK_THRESH :: int where "BTN_LOCK_THRESH = 171"

definition NUM_ACCUM_LOOPS :: nat where "NUM_ACCUM_LOOPS = 10"

definition TWO_POW_32 :: real where "TWO_POW_32 = 4294967295.0"

subsection \<open>Program state, pins and serial output\<close>

datatype pin = pinVfoDC | pinSigIn | pinDdsReset | pinDdsData | pinDdsLoad | pinDdsClock
  | pinLockLed | pinTrackingLed | pinBtns | LED_BUILTIN

datatype serial_item = Str string | ULong "32 word" | Double "real option" nat | Newline

text \<open>
  The globals of the sketch, the static local \<open>oldLockBtnPressed\<close> of \<open>CheckCtrlPins\<close>, the
  \<open>double\<close> stored at \<open>EE_ADDRESS\<close>, the level last written to each output pin, every
  \<open>digitalWrite\<close> in order (what the synthesizer sees on its four pins), and what was
  printed. \<open>world_init\<close> holds the initialisers: \<open>double scaleFactor = 1.0 / GATE_DUR\<close>,
  \<open>uint32_t fDDS = F_MID\<close>, both modes off.
\<close>

record world =
  gate :: gate_state
  scaleFactor :: real
  fDDS :: "32 word"
  trackMode :: bool
  lockMode :: bool
  oldLockBtnPressed :: bool
  eeprom :: "real option"
  pinLevel :: "pin \<Rightarrow> bool"
  pinWrites :: "(pin \<times> bool) list"
  serial :: "serial_item list"

definition world_init :: "real option \<Rightarrow> world" where
  "world_init stored = \<lparr>gate = gate_init, scaleFactor = double_round (1.0 / GATE_DUR),
     fDDS = word_of_int F_MID, trackMode = False, lockMode = False,
     oldLockBtnPressed = False, eeprom = stored, pinLevel = (\<lambda>p. False),
     pinWrites = [], serial = []\<rparr>"

definition digitalWrite :: "pin \<Rightarrow> bool \<Rightarrow> world \<Rightarrow> world" where
  "digitalWrite p v w = w\<lparr>pinLevel := (pinLevel w)(p := v), pinWrites := pinWrites w @ [(p, v)]\<rparr>"

definition pulseHigh :: "pin \<Rightarrow> world \<Rightarrow> world" where
  "pulseHigh p w = digitalWrite p False (digitalWrite p True w)"

definition Serial_print :: "serial_item \<Rightarrow> world \<Rightarrow> world" where
  "Serial_print x w = w\<lparr>serial := serial w @ [x]\<rparr>"

definition Serial_println :: "serial_item \<Rightarrow> world \<Rightarrow> world" where
  "Serial_println x w = w\<lparr>serial := serial w @ [x, Newline]\<rparr>"

definition is_dds_pin :: "pin \<Rightarrow> bool" where
  "is_dds_pin p = (p = pinDdsReset \<or> p = pinDdsData \<or> p = pinDdsLoad \<or> p = pinDdsClock)"

text \<open>What has been put on the synthesizer's pins so far.\<close>

definition ddsTraffic :: "world \<Rightarrow> (pin \<times> bool) list" where
  "ddsTraffic w = filter (\<lambda>(p, v). is_dds_pin p) (pinWrites w)"

text \<open>
  Conversion of a \<open>double\<close> to \<open>uint32_t\<close> discards the fraction. The products converted
  here are never negative and stay below \<open>2 ^ 32\<close>; outside that range C leaves the result
  open and the model wraps.
\<close>

definition double_to_uint32 :: "real \<Rightarrow> 32 word" where
  "double_to_uint32 x = word_of_int (if x < 0 then - \<lfloor>- x\<rfloor> else \<lfloor>x\<rfloor>)"

text \<open>A division of doubles: a zero divisor gives an infinity or a NaN.\<close>

definition double_div :: "real \<Rightarrow> real \<Rightarrow> real option" where
  "double_div a b = (if b = 0 then None else Some (a / b))"

subsection \<open>The synthesizer driver\<close>

text \<open>\<open>tfr_byte\<close>: eight bits, least significant first, each followed by a clock pulse.\<close>

fun tfr_bits :: "nat \<Rightarrow> 8 word \<Rightarrow> world \<Rightarrow> world" where
  "tfr_bits 0 dataByte w = w"
| "tfr_bits (Suc n) dataByte w =
     tfr_bits n (drop_bit 1 dataByte)
       (pulseHigh pinDdsClock (digitalWrite pinDdsData (dataByte AND 1 \<noteq> 0) w))"

definition tfr_byte :: "8 word \<Rightarrow> world \<Rightarrow> world" where
  "tfr_byte dataByte w = tfr_bits 8 dataByte w"

text \<open>\<open>for (int b = 0; b < 4; b++, tuningWord >>= 8) tfr_byte(tuningWord & 0xFF);\<close>\<close>

fun tfr_word :: "nat \<Rightarrow> 32 word \<Rightarrow> world \<Rightarrow> world" where
  "tfr_word 0 tuningWord w = w"
| "tfr_word (Suc n) tuningWord w =
     tfr_word n (drop_bit 8 tuningWord) (tfr_byte (ucast (tuningWord AND 0xFF)) w)"

text \<open>
  \<open>ddsSetFreq\<close>. Its parameter shadows the global \<open>fDDS\<close>. Both comparisons are strict and
  unsigned. \<open>TUNING_FACTOR\<close> is the macro text \<open>TWO_POW_32 / 125000000.0\<close>, so the product
  reads \<open>fDDS * TWO_POW_32 / 125000000.0\<close>.
\<close>

definition ddsSetFreq :: "32 word \<Rightarrow> world \<Rightarrow> world" where
  "ddsSetFreq f w =
     (if word_of_int F_MIN < f \<and> f < word_of_int F_MAX then
        (let tuningWord = double_to_uint32 (real (unat f) * TWO_POW_32 / 125000000.0);
             w1 = tfr_word 4 tuningWord w;
             w2 = tfr_byte 0 w1
         in pulseHigh pinDdsLoad w2)
      else
        (let w1 = Serial_print (Str ''----- Warning, fDDS = '') w;
             w2 = Serial_print (ULong f) w1
         in Serial_println (Str '', out of range for Yaesu VFO.  Not setting -----'') w2))"

definition setupDds :: "world \<Rightarrow> world" where
  "setupDds w = pulseHigh pinDdsLoad (pulseHigh pinDdsClock (pulseHigh pinDdsReset w))"

subsection \<open>Buttons and modes\<close>

text \<open>
  \<open>CheckCtrlPins\<close>. The two values it reads from the outside are arguments: \<open>vfoDC\<close> is
  \<open>digitalRead(pinVfoDC)\<close> and \<open>valA\<close> is \<open>analogRead(pinBtns)\<close>.
\<close>

definition CheckCtrlPins :: "bool \<Rightarrow> int \<Rightarrow> world \<Rightarrow> world" where
  "CheckCtrlPins vfoDC valA w =
     (let w1 = w\<lparr>trackMode := \<not> vfoDC\<rparr>;
          w2 = digitalWrite pinTrackingLed (trackMode w1) w1
      in if valA > NO_BUTS_THRESH then w2\<lparr>oldLockBtnPressed := False\<rparr>
         else if valA < BTN_LOCK_THRESH then
           (if \<not> oldLockBtnPressed w2 then
              (let w3 = w2\<lparr>lockMode := \<not> lockMode w2\<rparr>;
                   w4 = digitalWrite pinLockLed (lockMode w3) w3
               in w4\<lparr>oldLockBtnPressed := True\<rparr>)
            else w2)
         else if \<not> trackMode w2 then
           (let w3 = (if valA < BTN_UP_THRESH then w2\<lparr>fDDS := fDDS w2 + 5\<rparr>
                      else w2\<lparr>fDDS := fDDS w2 - 5\<rparr>)
            in ddsSetFreq (fDDS w3) w3)
         else w2)"

subsection \<open>The main loop\<close>

text \<open>
  \<open>loop\<close>. In \<open>fDDS = gatedCount * scaleFactor\<close> the count is converted to \<open>double\<close>, the
  product is rounded to a \<open>double\<close>, and the assignment converts it to \<open>uint32_t\<close>.
\<close>

definition loop :: "bool \<Rightarrow> int \<Rightarrow> world \<Rightarrow> event list \<Rightarrow> (world \<times> event list) option" where
  "loop vfoDC valA w evs =
     (let w1 = digitalWrite LED_BUILTIN (\<not> pinLevel w LED_BUILTIN) w in
      case getGatedCount (gate w1) evs of
        None \<Rightarrow> None
      | Some (gatedCount, g, rest) \<Rightarrow>
          (let w2 = CheckCtrlPins vfoDC valA (w1\<lparr>gate := g\<rparr>) in
           if trackMode w2 \<and> \<not> lockMode w2 then
             (let w3 = w2\<lparr>fDDS := double_to_uint32
                         (double_round (uint32_to_double gatedCount * scaleFactor w2))\<rparr>
              in Some (ddsSetFreq (fDDS w3) w3, rest))
           else Some (w2, rest)))"

text \<open>Successive passes through \<open>loop\<close>, one pair of readings for each.\<close>

fun run_cycles ::
  "(bool \<times> int) list \<Rightarrow> world \<Rightarrow> event list \<Rightarrow> (world \<times> event list) option" where
  "run_cycles [] w evs = Some (w, evs)"
| "run_cycles ((vfoDC, valA) # ins) w evs =
     (case loop vfoDC valA w evs of
        None \<Rightarrow> None
      | Some (w1, rest) \<Rightarrow> run_cycles ins w1 rest)"

subsection \<open>Calibration\<close>

text \<open>\<open>(calRatio > 0.95) && (calRatio < 1.05)\<close>\<close>

definition calRatio_ok :: "real option \<Rightarrow> bool" where
  "calRatio_ok calRatio = (case calRatio of None \<Rightarrow> False | Some r \<Rightarrow> r > 0.95 \<and> r < 1.05)"

text \<open>\<open>digitalWrite(pinLockLed, !digitalRead(pinLockLed))\<close>\<close>

definition toggleLockLed :: "world \<Rightarrow> world" where
  "toggleLockLed w = digitalWrite pinLockLed (\<not> pinLevel w pinLockLed) w"

text \<open>The inner loop of \<open>doCalib\<close>; the first argument is the number of passes still to run.\<close>

fun accum_loop ::
  "nat \<Rightarrow> 32 word \<Rightarrow> world \<Rightarrow> event list \<Rightarrow> (32 word \<times> world \<times> event list) option" where
  "accum_loop 0 countAccum w evs = Some (countAccum, w, evs)"
| "accum_loop (Suc i) countAccum w evs =
     (let w1 = toggleLockLed w in
      case getGatedCount (gate w1) evs of
        None \<Rightarrow> None
      | Some (c, g, rest) \<Rightarrow> accum_loop i (countAccum + c) (w1\<lparr>gate := g\<rparr>) rest)"

text \<open>One pass of the outer loop, after the inner loop has delivered \<open>countAccum\<close>.\<close>

definition calib_pass :: "32 word \<Rightarrow> world \<Rightarrow> real option \<times> world" where
  "calib_pass countAccum w =
     (let fAv = (real (unat countAccum) * scaleFactor w) / real NUM_ACCUM_LOOPS;
          calRatio = double_div (real_of_int F_MID) fAv;
          w1 = Serial_print (Str ''fDDS = '') w;
          w2 = Serial_print (ULong (fDDS w1)) w1;
          w3 = Serial_print (Str '', fMeasured = '') w2;
          w4 = Serial_print (Double (Some fAv) 2) w3;
          w5 = Serial_print (Str '', calRatio = '') w4
      in (calRatio, Serial_println (Double calRatio 7) w5))"

fun calib_loop ::
  "nat \<Rightarrow> real option \<Rightarrow> world \<Rightarrow> event list \<Rightarrow> (real option \<times> world \<times> event list) option"
  where
  "calib_loop 0 calRatio w evs = Some (calRatio, w, evs)"
| "calib_loop (Suc j) calRatio w evs =
     (case accum_loop NUM_ACCUM_LOOPS 0 w evs of
        None \<Rightarrow> None
      | Some (countAccum, w1, rest) \<Rightarrow>
          (case calib_pass countAccum w1 of (calRatio', w2) \<Rightarrow> calib_loop j calRatio' w2 rest))"

text \<open>The end of \<open>doCalib\<close>: the range check on the last ratio, and what follows it.\<close>

definition calib_store :: "real option \<Rightarrow> world \<Rightarrow> world" where
  "calib_store calRatio w =
     (if calRatio_ok calRatio then
        (let w1 = w\<lparr>eeprom := calRatio\<rparr>;
             w2 = w1\<lparr>lockMode := True\<rparr>;
             w3 = digitalWrite pinLockLed (lockMode w2) w2;
             w4 = Serial_println (Str ''Writing calRatio to EEPROM...'') w3
         in Serial_println (Str ''Set calib jumper back to normal position'') w4)
      else Serial_print (Str ''calRatio bad value.  Not writing to EEPROM.'') w)"

definition doCalib :: "world \<Rightarrow> event list \<Rightarrow> (world \<times> event list) option" where
  "doCalib w evs =
     (let w1 = Serial_println (Str ''Calibrating...'') w;
          w2 = ddsSetFreq (word_of_int F_MID) w1
      in case calib_loop 8 (Some 1.0) w2 evs of
           None \<Rightarrow> None
         | Some (calRatio, w3, rest) \<Rightarrow> Some (calib_store calRatio w3, rest))"

text \<open>
  \<open>getStoredCalib\<close>. \<open>EEPROM.get\<close> overwrites the local \<open>calRatio\<close> with the stored value;
  bytes that are no finite number fail the range test like any value out of range.
\<close>

definition getStoredCalib :: "world \<Rightarrow> world" where
  "getStoredCalib w =
     (let calRatio = eeprom w in
      case calRatio of
        Some r \<Rightarrow>
          if calRatio_ok calRatio then
            (let w1 = w\<lparr>scaleFactor := double_round (r / GATE_DUR)\<rparr>;
                 w2 = Serial_print (Str ''Read calRatio from EEPROM: '') w1;
                 w3 = Serial_println (Double calRatio 7) w2
             in Serial_println (Str ''======= Calibrated ======='') w3)
          else Serial_print (Str ''Unable to read calRatio from EEPROM.  Not calibrated yet.'') w
      | None \<Rightarrow>
          Serial_print (Str ''Unable to read calRatio from EEPROM.  Not calibrated yet.'') w)"

subsection \<open>Startup\<close>

text \<open>
  Of \<open>setupPins\<close> the two \<open>digitalWrite\<close> calls change the state modelled here, the
  \<open>pinMode\<close> calls do not. \<open>setupTimers\<close> clears the counter register; the control
  registers it sets are outside the model, which takes both timers to run as configured.
  \<open>Serial.begin\<close> leaves no trace either.
\<close>

definition setupPins :: "world \<Rightarrow> world" where
  "setupPins w = digitalWrite pinLockLed (lockMode w) (digitalWrite pinTrackingLed (trackMode w) w)"

definition setupTimers :: "world \<Rightarrow> world" where
  "setupTimers w = w\<lparr>gate := (gate w)\<lparr>TCNT1 := 0\<rparr>\<rparr>"

text \<open>\<open>setup\<close>; \<open>valA\<close> is the one \<open>analogRead(pinBtns)\<close> it makes.\<close>

definition setup_sketch :: "int \<Rightarrow> world \<Rightarrow> event list \<Rightarrow> (world \<times> event list) option" where
  "setup_sketch valA w evs =
     (let w1 = setupPins w;
          w2 = setupDds w1;
          w3 = ddsSetFreq (word_of_int F_MID) w2;
          w4 = setupTimers w3;
          w5 = Serial_println (Str (''To calibrate, set calib jumper, then press arduino reset btn ''
                 @ ''while holding either nudge btn pressed'')) w4
      in case (if valA < NO_BUTS_THRESH then doCalib w5 evs else Some (w5, evs)) of
           None \<Rightarrow> None
         | Some (w6, rest) \<Rightarrow> Some (getStoredCalib w6, rest))"

subsection \<open>What the synthesizer receives\<close>

text \<open>
  One bit on the serial line: the data level, then a pulse on the clock pin. A complete
  command is the 32 bits of the tuning word from the least significant up, eight zero
  control bits, and a pulse on the load pin.
\<close>

definition bit_cell :: "bool \<Rightarrow> (pin \<times> bool) list" where
  "bit_cell b = [(pinDdsData, b), (pinDdsClock, True), (pinDdsClock, False)]"

definition dds_frame :: "32 word \<Rightarrow> (pin \<times> bool) list" where
  "dds_frame tuningWord =
     concat (map (\<lambda>i. bit_cell (bit tuningWord i)) [0..<32])
     @ concat (replicate 8 (bit_cell False))
     @ [(pinDdsLoad, True), (pinDdsLoad, False)]"

subsection \<open>Successive measurements\<close>

text \<open>
  For stating what the calibration computes: the results of \<open>n\<close> calls of
  \<open>getGatedCount\<close> one after the other, and the results of \<open>j\<close> groups of
  \<open>NUM_ACCUM_LOOPS\<close> such calls.
\<close>

fun gated_counts ::
  "nat \<Rightarrow> gate_state \<Rightarrow> event list \<Rightarrow> (32 word list \<times> gate_state \<times> event list) option" where
  "gated_counts 0 g evs = Some ([], g, evs)"
| "gated_counts (Suc n) g evs =
     (case getGatedCount g evs of
        None \<Rightarrow> None
      | Some (c, g1, rest) \<Rightarrow>
          (case gated_counts n g1 rest of
             None \<Rightarrow> None
           | Some (cs, g2, rest2) \<Rightarrow> Some (c # cs, g2, rest2)))"

fun gated_blocks ::
  "nat \<Rightarrow> gate_state \<Rightarrow> event list \<Rightarrow> (32 word list list \<times> gate_state \<times> event list) option"
  where
  "gated_blocks 0 g evs = Some ([], g, evs)"
| "gated_blocks (Suc j) g evs =
     (case gated_counts NUM_ACCUM_LOOPS g evs of
        None \<Rightarrow> None
      | Some (b, g1, rest) \<Rightarrow>
          (case gated_blocks j g1 rest of
             None \<Rightarrow> None
           | Some (bs, g2, rest2) \<Rightarrow> Some (b # bs, g2, rest2)))"

text \<open>
  The average of a group of counts times a scale factor, the ratio of \<open>F_MID\<close> to it, and
  the line \<open>doCalib\<close> prints for a pass.
\<close>

definition measured :: "real \<Rightarrow> 32 word list \<Rightarrow> real" where
  "measured sf cs = (sum_list (map (\<lambda>c. real (unat c)) cs) / real (length cs)) * sf"

definition pass_ratio :: "real \<Rightarrow> 32 word list \<Rightarrow> real option" where
  "pass_ratio sf cs = double_div (real_of_int F_MID) (measured sf cs)"

definition pass_report :: "32 word \<Rightarrow> real \<Rightarrow> 32 word list \<Rightarrow> serial_item list" where
  "pass_report f sf cs =
     [Str ''fDDS = '', ULong f, Str '', fMeasured = '', Double (Some (measured sf cs)) 2,
      Str '', calRatio = '', Double (pass_ratio sf cs) 7, Newline]"

text \<open>The ratio in hand after a number of passes: the one of the last pass, if there was one.\<close>

definition last_ratio :: "real option \<Rightarrow> real \<Rightarrow> 32 word list list \<Rightarrow> real option" where
  "last_ratio r0 sf bs = (if bs = [] then r0 else pass_ratio sf (last bs))"

text \<open>
  A gate's worth of hardware events: \<open>m\<close> signal edges, then the six overflows of timer 2
  that close the gate.
\<close>

definition gate_burst :: "nat \<Rightarrow> event list" where
  "gate_burst m = Edges m # replicate 6 T2Overflow"

subsection \<open>Band and buttons\<close>

text \<open>
  The test of \<open>ddsSetFreq\<close> on its argument, the tuning word it computes, and what it puts
  on the synthesizer's pins for an argument: the complete command inside the band,
  nothing outside.
\<close>

definition in_band :: "32 word \<Rightarrow> bool" where
  "in_band f = (F_MIN < uint f \<and> uint f < F_MAX)"

definition tuning_word :: "32 word \<Rightarrow> 32 word" where
  "tuning_word f = double_to_uint32 (real (unat f) * TWO_POW_32 / 125000000)"

definition command :: "32 word \<Rightarrow> (pin \<times> bool) list" where
  "command f = (if in_band f then dds_frame (tuning_word f) else [])"

text \<open>
  A reading of the button pin that is neither "no button" nor the lock button: one of the
  two nudge buttons. Readings from \<open>BTN_UP_THRESH\<close> upwards are the up button, those below
  it the down button.
\<close>

definition nudge_reading :: "int \<Rightarrow> bool" where
  "nudge_reading valA = (BTN_LOCK_THRESH \<le> valA \<and> valA \<le> NO_BUTS_THRESH)"

section \<open>Properties of the gated counter\<close>

subsection \<open>Words\<close>

lemma sint_dec:
  "0 <s (c :: 16 word) \<Longrightarrow> sint (c - 1) = sint c - 1"
proof -
  assume "0 <s c"
  then have p: "0 < sint c" by (simp add: word_sless_alt)
  have u: "sint c < 2 ^ 15" using sint_lt [of c] by simp
  show ?thesis using p u
    by (simp add: sint_word_ariths signed_take_bit_int_eq_self)
qed


lemma sint_one_iff: "sint (c :: 16 word) = 1 \<longleftrightarrow> c = 1"
proof
  assume "sint c = 1"
  then have "sint c = sint (1 :: 16 word)" by simp
  then show "c = 1" by (rule signed_word_eqI)
qed simp

lemma combine_or:
  "push_bit 16 (ucast (a :: 8 word) :: 32 word) + ucast (b :: 16 word)
     = push_bit 16 (ucast a) OR ucast b"
  by (rule disjunctive_add_eq_or) (auto simp: bit_eq_iff bit_simps dest: bit_imp_le_length)

lemma unat_combine:
  "unat (push_bit 16 (ucast (a :: 8 word) :: 32 word) + ucast (b :: 16 word))
     = unat a * 65536 + unat b"
proof -
  have a: "unat a < 256" using unsigned_less [of a] by simp
  have b: "unat b < 65536" using unsigned_less [of b] by simp
  have "push_bit 16 (ucast a :: 32 word) + ucast b = of_nat (unat a * 65536 + unat b)"
    by (simp add: push_bit_eq_mult)
  then show ?thesis using a b
    by (simp add: unat_of_nat take_bit_nat_eq_self_iff del: of_nat_add of_nat_mult)
qed


subsection \<open>The running count\<close>

lemma live_bound: "live s < 2 ^ 24"
proof -
  have a: "unat (vCtr1OvrFlows s) < 256" using unsigned_less [of "vCtr1OvrFlows s"] by simp
  have b: "unat (TCNT1 s) < 65536" using unsigned_less [of "TCNT1 s"] by simp
  show ?thesis using a b by (simp add: live_def)
qed

lemma sig_edge_fields [simp]:
  "vGateSegCountdown (sig_edge s) = vGateSegCountdown s"
  "vCtr1OvrFlowsCopy (sig_edge s) = vCtr1OvrFlowsCopy s"
  "vCtr1Copy (sig_edge s) = vCtr1Copy s"
  by (simp_all add: sig_edge_def TIMER1_OVF_vect_def Let_def)

lemma sig_edge_live: "live (sig_edge s) = (live s + 1) mod 2 ^ 24"
proof -
  have a: "unat (vCtr1OvrFlows s) < 256" using unsigned_less [of "vCtr1OvrFlows s"] by simp
  have b: "unat (TCNT1 s) < 65536" using unsigned_less [of "TCNT1 s"] by simp
  show ?thesis
  proof (cases "TCNT1 s + 1 = 0")
    case True
    then have "TCNT1 s = - 1" by (simp add: eq_neg_iff_add_eq_0)
    then have t: "TCNT1 s = 65535" by simp
    have o: "unat (vCtr1OvrFlows s + 1) = (unat (vCtr1OvrFlows s) + 1) mod 256"
      by (simp add: unat_word_ariths)
    have "(unat (vCtr1OvrFlows s) * 65536 + 65535 + 1) mod 2 ^ 24
            = ((unat (vCtr1OvrFlows s) + 1) mod 256) * 65536"
      using a by (cases "unat (vCtr1OvrFlows s) = 255") auto
    then show ?thesis using t o
      by (simp add: live_def sig_edge_def TIMER1_OVF_vect_def Let_def)
  next
    case False
    then have "unat (TCNT1 s + 1) = Suc (unat (TCNT1 s))"
      by (simp add: unatSuc add.commute)
    moreover have "unat (TCNT1 s) \<noteq> 65535"
    proof
      assume "unat (TCNT1 s) = 65535"
      then have "TCNT1 s = of_nat 65535" by (metis of_nat_unat ucast_id)
      with False show False by simp
    qed
    ultimately show ?thesis using False a b
      by (simp add: live_def sig_edge_def Let_def)
  qed
qed

lemma edges_live: "live ((sig_edge ^^ n) s) = (live s + n) mod 2 ^ 24"
proof (induction n)
  case 0
  show ?case using live_bound [of s] by simp
next
  case (Suc n)
  show ?case by (simp add: sig_edge_live Suc mod_Suc_eq)
qed

lemma edges_fields [simp]:
  "vGateSegCountdown ((sig_edge ^^ n) s) = vGateSegCountdown s"
  "vCtr1OvrFlowsCopy ((sig_edge ^^ n) s) = vCtr1OvrFlowsCopy s"
  "vCtr1Copy ((sig_edge ^^ n) s) = vCtr1Copy s"
  by (induction n) simp_all

lemma div_Suc_dvd: "Suc m div 65536 = m div 65536 + (if (65536::nat) dvd Suc m then 1 else 0)"
  by (simp add: div_Suc dvd_eq_mod_eq_0)

lemma edges_closed:
  "(sig_edge ^^ n) s = s\<lparr>TCNT1 := TCNT1 s + of_nat n,
      vCtr1OvrFlows := vCtr1OvrFlows s + of_nat ((unat (TCNT1 s) + n) div 65536)\<rparr>"
proof (induction n)
  case 0
  have "unat (TCNT1 s) < 65536" using unsigned_less [of "TCNT1 s"] by simp
  then show ?case by simp
next
  case (Suc n)
  have z: "TCNT1 s + of_nat n + 1 = 0 \<longleftrightarrow> 65536 dvd Suc (unat (TCNT1 s) + n)"
  proof -
    have "TCNT1 s + of_nat n + 1 = (of_nat (Suc (unat (TCNT1 s) + n)) :: 16 word)" by simp
    then show ?thesis by (simp only: word_of_nat_eq_0_iff) simp
  qed
  have "(sig_edge ^^ Suc n) s = sig_edge ((sig_edge ^^ n) s)" by simp
  also have "\<dots> = sig_edge (s\<lparr>TCNT1 := TCNT1 s + of_nat n,
      vCtr1OvrFlows := vCtr1OvrFlows s + of_nat ((unat (TCNT1 s) + n) div 65536)\<rparr>)"
    by (simp only: Suc)
  also have "\<dots> = s\<lparr>TCNT1 := TCNT1 s + of_nat (Suc n),
      vCtr1OvrFlows := vCtr1OvrFlows s + of_nat ((unat (TCNT1 s) + Suc n) div 65536)\<rparr>"
  proof (cases "65536 dvd Suc (unat (TCNT1 s) + n)")
    case True
    then have w: "TCNT1 s + of_nat n + 1 = 0" by (simp only: z)
    have d: "(unat (TCNT1 s) + Suc n) div 65536 = (unat (TCNT1 s) + n) div 65536 + 1"
      using True div_Suc_dvd [of "unat (TCNT1 s) + n"] by simp
    have "TCNT1 s + of_nat (Suc n) = TCNT1 s + of_nat n + 1" by (simp add: add_ac)
    then have t: "TCNT1 s + of_nat (Suc n) = 0" using w by simp
    show ?thesis unfolding d t using w
      by (simp add: sig_edge_def TIMER1_OVF_vect_def Let_def add_ac)
  next
    case False
    then have w: "TCNT1 s + of_nat n + 1 \<noteq> 0" by (simp only: z) simp
    have d: "(unat (TCNT1 s) + Suc n) div 65536 = (unat (TCNT1 s) + n) div 65536"
      using False div_Suc_dvd [of "unat (TCNT1 s) + n"] by simp
    have t: "TCNT1 s + of_nat (Suc n) = TCNT1 s + of_nat n + 1"
      by (simp add: add_ac)
    show ?thesis unfolding d t using w
      by (simp add: sig_edge_def Let_def add_ac)
  qed
  finally show ?case .
qed


subsection \<open>The countdown between two gate closes\<close>

lemma t2_open:
  assumes "1 < sint (vGateSegCountdown s)"
  shows "TIMER2_OVF_vect s = s\<lparr>vGateSegCountdown := vGateSegCountdown s - 1\<rparr>"
    and "sint (vGateSegCountdown (TIMER2_OVF_vect s)) = sint (vGateSegCountdown s) - 1"
proof -
  have p: "0 <s vGateSegCountdown s" using assms by (simp add: word_sless_alt)
  have d: "sint (vGateSegCountdown s - 1) = sint (vGateSegCountdown s) - 1"
    by (rule sint_dec [OF p])
  have "vGateSegCountdown s - 1 \<noteq> 0"
  proof
    assume "vGateSegCountdown s - 1 = 0"
    then have "sint (vGateSegCountdown s - 1) = 0" by simp
    with d assms show False by simp
  qed
  then show "TIMER2_OVF_vect s = s\<lparr>vGateSegCountdown := vGateSegCountdown s - 1\<rparr>"
    by (simp add: TIMER2_OVF_vect_def Let_def)
  then show "sint (vGateSegCountdown (TIMER2_OVF_vect s)) = sint (vGateSegCountdown s) - 1"
    using d by simp
qed

lemma t2_close:
  assumes "vGateSegCountdown s = 1"
  shows "TIMER2_OVF_vect s = s\<lparr>vGateSegCountdown := 0, vCtr1Copy := TCNT1 s, TCNT1 := 0,
           vCtr1OvrFlowsCopy := vCtr1OvrFlows s, vCtr1OvrFlows := 0\<rparr>"
  using assms by (simp add: TIMER2_OVF_vect_def Let_def)

lemma hw_run_append: "hw_run (xs @ ys) s = hw_run ys (hw_run xs s)"
  by (induction xs arbitrary: s) simp_all

lemma hw_run_open:
  "int (t2_of pre) < sint (vGateSegCountdown s) \<Longrightarrow>
     sint (vGateSegCountdown (hw_run pre s)) = sint (vGateSegCountdown s) - int (t2_of pre)
   \<and> live (hw_run pre s) = (live s + edges_of pre) mod 2 ^ 24
   \<and> vCtr1OvrFlowsCopy (hw_run pre s) = vCtr1OvrFlowsCopy s
   \<and> vCtr1Copy (hw_run pre s) = vCtr1Copy s"
proof (induction pre arbitrary: s)
  case Nil
  show ?case using live_bound [of s] by simp
next
  case (Cons e es)
  show ?case
  proof (cases e)
    case (Edges n)
    with Cons.prems have "int (t2_of es) < sint (vGateSegCountdown ((sig_edge ^^ n) s))"
      by simp
    from Cons.IH [OF this] show ?thesis using Edges
      by (simp add: edges_live mod_add_left_eq add.assoc)
  next
    case T2Overflow
    with Cons.prems have big: "1 < sint (vGateSegCountdown s)" by simp
    have st: "TIMER2_OVF_vect s = s\<lparr>vGateSegCountdown := vGateSegCountdown s - 1\<rparr>"
      and cd: "sint (vGateSegCountdown (TIMER2_OVF_vect s)) = sint (vGateSegCountdown s) - 1"
      using t2_open [OF big] by simp_all
    have "int (t2_of es) < sint (vGateSegCountdown (TIMER2_OVF_vect s))"
      using Cons.prems T2Overflow cd by simp
    from Cons.IH [OF this] have
      "sint (vGateSegCountdown (hw_run es (TIMER2_OVF_vect s)))
         = sint (vGateSegCountdown s) - 1 - int (t2_of es)
       \<and> live (hw_run es (TIMER2_OVF_vect s)) = (live (TIMER2_OVF_vect s) + edges_of es) mod 2 ^ 24
       \<and> vCtr1OvrFlowsCopy (hw_run es (TIMER2_OVF_vect s)) = vCtr1OvrFlowsCopy (TIMER2_OVF_vect s)
       \<and> vCtr1Copy (hw_run es (TIMER2_OVF_vect s)) = vCtr1Copy (TIMER2_OVF_vect s)"
      using cd by simp
    moreover have "live (TIMER2_OVF_vect s) = live s" by (simp add: st live_def)
    moreover have "vCtr1OvrFlowsCopy (TIMER2_OVF_vect s) = vCtr1OvrFlowsCopy s"
      "vCtr1Copy (TIMER2_OVF_vect s) = vCtr1Copy s" by (simp_all add: st)
    ultimately show ?thesis using T2Overflow by simp
  qed
qed


lemma t2_of_append: "t2_of (xs @ ys) = t2_of xs + t2_of ys"
  by (induction xs rule: t2_of.induct) simp_all

lemma edges_of_append: "edges_of (xs @ ys) = edges_of xs + edges_of ys"
  by (induction xs rule: edges_of.induct) simp_all









subsection \<open>Order of the statements of \<open>getGatedCount\<close>\<close>

lemma gate_wait_done: "\<not> 0 <s vGateSegCountdown s \<Longrightarrow> gate_wait s evs = Some (s, evs)"
  by (cases evs) simp_all

lemma exec_append: "exec (xs @ ys) t = exec ys (exec xs t)"
  by (induction xs arbitrary: t) simp_all

lemma exec_hw: "exec (map Hw es) (p, c, s) = (p, c, hw_run es s)"
  by (induction es arbitrary: s) simp_all

lemma hw_run_quiet:
  "t2_of es = 0 \<Longrightarrow>
     vGateSegCountdown (hw_run es s) = vGateSegCountdown s
   \<and> vCtr1OvrFlowsCopy (hw_run es s) = vCtr1OvrFlowsCopy s
   \<and> vCtr1Copy (hw_run es s) = vCtr1Copy s
   \<and> live (hw_run es s) = (live s + edges_of es) mod 2 ^ 24"
proof (induction es arbitrary: s)
  case Nil
  show ?case using live_bound [of s] by simp
next
  case (Cons e es)
  show ?case
  proof (cases e)
    case (Edges n)
    with Cons.prems have "t2_of es = 0" by simp
    from Cons.IH [OF this] show ?thesis using Edges
      by (simp add: edges_live mod_add_left_eq add.assoc)
  next
    case T2Overflow
    with Cons.prems show ?thesis by simp
  qed
qed

lemma exec_polling_idle:
  "int (t2_of (hw_of pre)) < sint (vGateSegCountdown s) \<Longrightarrow>
     exec pre (Polling, g0, s) = (Polling, g0, hw_run (hw_of pre) s)"
proof (induction pre arbitrary: s)
  case Nil
  show ?case by simp
next
  case (Cons a as)
  show ?case
  proof (cases a)
    case Main
    have "0 <s vGateSegCountdown s" using Cons.prems by (simp add: word_sless_alt)
    then show ?thesis using Main Cons by simp
  next
    case (Hw e)
    show ?thesis
    proof (cases e)
      case (Edges n)
      then show ?thesis using Hw Cons by simp
    next
      case T2Overflow
      with Hw Cons.prems have big: "1 < sint (vGateSegCountdown s)" by simp
      have "int (t2_of (hw_of as)) < sint (vGateSegCountdown (TIMER2_OVF_vect s))"
        using t2_open(2) [OF big] Cons.prems Hw T2Overflow by simp
      from Cons.IH [OF this] show ?thesis using Hw T2Overflow by simp
    qed
  qed
qed

lemma gate_wait_close:
  "0 <s vGateSegCountdown s \<Longrightarrow> int (t2_of p) + 1 = sint (vGateSegCountdown s) \<Longrightarrow>
     gate_wait s (p @ T2Overflow # r) = Some (TIMER2_OVF_vect (hw_run p s), r)"
proof (induction p arbitrary: s)
  case Nil
  then have "vGateSegCountdown s = 1" by (simp add: sint_one_iff)
  then have "vGateSegCountdown (TIMER2_OVF_vect s) = 0" by (simp add: t2_close)
  then have "gate_wait (TIMER2_OVF_vect s) r = Some (TIMER2_OVF_vect s, r)"
    by (simp add: gate_wait_done)
  then show ?case using Nil.prems(1) by simp
next
  case (Cons e es)
  show ?case
  proof (cases e)
    case (Edges n)
    with Cons.prems have "0 <s vGateSegCountdown (hw_step e s)"
      "int (t2_of es) + 1 = sint (vGateSegCountdown (hw_step e s))" by simp_all
    from Cons.IH [OF this] show ?thesis using Cons.prems(1) by simp
  next
    case T2Overflow
    with Cons.prems have big: "1 < sint (vGateSegCountdown s)" by simp
    have cd: "sint (vGateSegCountdown (TIMER2_OVF_vect s)) = sint (vGateSegCountdown s) - 1"
      by (rule t2_open(2) [OF big])
    have "0 <s vGateSegCountdown (hw_step e s)"
      "int (t2_of es) + 1 = sint (vGateSegCountdown (hw_step e s))"
      using big cd T2Overflow Cons.prems(2) by (simp_all add: word_sless_alt)
    from Cons.IH [OF this] show ?thesis using Cons.prems(1) by simp
  qed
qed

lemma leave_Woken:
  "exec sch (Woken, g0, s) = (p, c, g) \<Longrightarrow> p \<noteq> Woken \<Longrightarrow>
     \<exists>evs b. sch = map Hw evs @ Main # b"
proof (induction sch arbitrary: s)
  case Nil
  then show ?case by simp
next
  case (Cons a as)
  show ?case
  proof (cases a)
    case Main
    then have "a # as = map Hw [] @ Main # as" by simp
    then show ?thesis by blast
  next
    case (Hw e)
    with Cons.prems have "exec as (Woken, g0, hw_step e s) = (p, c, g)" by simp
    from Cons.IH [OF this Cons.prems(2)] obtain evs b where "as = map Hw evs @ Main # b" by blast
    then have "a # as = map Hw (e # evs) @ Main # b" using Hw by simp
    then show ?thesis by blast
  qed
qed

lemma leave_Polling:
  "exec sch (Polling, g0, s) = (p, c, g) \<Longrightarrow> p \<noteq> Polling \<Longrightarrow> p \<noteq> Woken \<Longrightarrow>
     \<exists>a evs b gp. sch = a @ Main # map Hw evs @ Main # b
       \<and> exec a (Polling, g0, s) = (Polling, g0, gp) \<and> \<not> 0 <s vGateSegCountdown gp"
proof (induction sch arbitrary: s)
  case Nil
  then show ?case by simp
next
  case (Cons x xs)
  show ?case
  proof (cases x)
    case (Hw e)
    with Cons.prems have "exec xs (Polling, g0, hw_step e s) = (p, c, g)" by simp
    from Cons.IH [OF this Cons.prems(2,3)] obtain a evs b gp where
      "xs = a @ Main # map Hw evs @ Main # b"
      "exec a (Polling, g0, hw_step e s) = (Polling, g0, gp)" "\<not> 0 <s vGateSegCountdown gp"
      by blast
    then have "x # xs = (x # a) @ Main # map Hw evs @ Main # b
       \<and> exec (x # a) (Polling, g0, s) = (Polling, g0, gp) \<and> \<not> 0 <s vGateSegCountdown gp"
      using Hw by simp
    then show ?thesis by blast
  next
    case Main
    show ?thesis
    proof (cases "0 <s vGateSegCountdown s")
      case True
      with Cons.prems Main have "exec xs (Polling, g0, s) = (p, c, g)" by simp
      from Cons.IH [OF this Cons.prems(2,3)] obtain a evs b gp where
        "xs = a @ Main # map Hw evs @ Main # b"
        "exec a (Polling, g0, s) = (Polling, g0, gp)" "\<not> 0 <s vGateSegCountdown gp"
        by blast
      then have "x # xs = (x # a) @ Main # map Hw evs @ Main # b
         \<and> exec (x # a) (Polling, g0, s) = (Polling, g0, gp) \<and> \<not> 0 <s vGateSegCountdown gp"
        using Main True by simp
      then show ?thesis by blast
    next
      case False
      with Cons.prems Main have "exec xs (Woken, g0, s) = (p, c, g)" by simp
      from leave_Woken [OF this Cons.prems(3)] obtain evs b where "xs = map Hw evs @ Main # b"
        by blast
      then have "x # xs = [] @ Main # map Hw evs @ Main # b
         \<and> exec [] (Polling, g0, s) = (Polling, g0, s) \<and> \<not> 0 <s vGateSegCountdown s"
        using Main False by simp
      then show ?thesis by blast
    qed
  qed
qed

lemma rearm_first:
  assumes "exec sch (Polling, g0, s) = (p, c, g)" "p \<noteq> Polling" "p \<noteq> Woken"
  shows "\<exists>a evs b gp. sch = a @ Main # map Hw evs @ Main # b
       \<and> exec a (Polling, g0, s) = (Polling, g0, gp) \<and> \<not> 0 <s vGateSegCountdown gp
       \<and> exec (a @ Main # map Hw evs @ [Main]) (Polling, g0, s)
           = (Rearmed, g0, (hw_run evs gp)\<lparr>vGateSegCountdown := SEGS_PER_GATE\<rparr>)"
proof -
  from leave_Polling [OF assms] obtain a evs b gp where
    s: "sch = a @ Main # map Hw evs @ Main # b"
    and e: "exec a (Polling, g0, s) = (Polling, g0, gp)" and n: "\<not> 0 <s vGateSegCountdown gp"
    by auto
  have "exec (a @ Main # map Hw evs @ [Main]) (Polling, g0, s)
           = (Rearmed, g0, (hw_run evs gp)\<lparr>vGateSegCountdown := SEGS_PER_GATE\<rparr>)"
    using e n by (simp add: exec_append exec_hw rearm_def)
  with s e n show ?thesis by blast
qed

lemma unread_Woken: "exec sch (Woken, g0, s) = (Woken, c, g) \<Longrightarrow> c = g0"
proof (induction sch arbitrary: s)
  case Nil
  then show ?case by simp
next
  case (Cons a as)
  show ?case
  proof (cases a)
    case Main
    with Cons.prems have e: "exec as (Rearmed, g0, rearm s) = (Woken, c, g)" by simp
    have "\<And>t. fst t \<noteq> Polling \<Longrightarrow> fst t \<noteq> Woken \<Longrightarrow>
        fst (exec as t) \<noteq> Polling \<and> fst (exec as t) \<noteq> Woken"
    proof (induction as)
      case Nil
      then show ?case by simp
    next
      case (Cons x xs)
      obtain q k v where t: "t = (q, k, v)" by (cases t)
      have "fst (act x t) \<noteq> Polling \<and> fst (act x t) \<noteq> Woken"
        using Cons.prems t by (cases x; cases q) simp_all
      then show ?case using Cons.IH [of "act x t"] by simp
    qed
    from this [of "(Rearmed, g0, rearm s)"] e show ?thesis by simp
  next
    case (Hw e)
    with Cons.prems have "exec as (Woken, g0, hw_step e s) = (Woken, c, g)" by simp
    from Cons.IH [OF this] show ?thesis .
  qed
qed

lemma unread_before_rearm:
  "exec sch (Polling, g0, s) = (p, c, g) \<Longrightarrow> p = Polling \<or> p = Woken \<Longrightarrow> c = g0"
proof (induction sch arbitrary: s)
  case Nil
  then show ?case by simp
next
  case (Cons a as)
  show ?case
  proof (cases a)
    case (Hw e)
    with Cons.prems have "exec as (Polling, g0, hw_step e s) = (p, c, g)" by simp
    from Cons.IH [OF this Cons.prems(2)] show ?thesis .
  next
    case Main
    show ?thesis
    proof (cases "0 <s vGateSegCountdown s")
      case True
      with Cons.prems Main have "exec as (Polling, g0, s) = (p, c, g)" by simp
      from Cons.IH [OF this Cons.prems(2)] show ?thesis .
    next
      case False
      with Cons.prems Main have e: "exec as (Woken, g0, s) = (p, c, g)" by simp
      show ?thesis
      proof (cases "p = Woken")
        case True
        with e show ?thesis using unread_Woken by blast
      next
        case False
        with Cons.prems(2) have pp: "p = Polling" by simp
        have "\<And>t. fst t \<noteq> Polling \<Longrightarrow> fst (exec as t) \<noteq> Polling"
        proof (induction as)
          case Nil
          then show ?case by simp
        next
          case (Cons x xs)
          obtain q k v where t: "t = (q, k, v)" by (cases t)
          have "fst (act x t) \<noteq> Polling"
            using Cons.prems t by (cases x; cases q) simp_all
          then show ?case using Cons.IH [of "act x t"] by simp
        qed
        from this [of "(Woken, g0, s)"] e pp show ?thesis by simp
      qed
    qed
  qed
qed

lemma live_rearm: "live (rearm s) = live s"
  by (simp add: live_def rearm_def)

lemma rearm_fields:
  "vGateSegCountdown (rearm s) = SEGS_PER_GATE"
  "vCtr1OvrFlowsCopy (rearm s) = vCtr1OvrFlowsCopy s"
  "vCtr1Copy (rearm s) = vCtr1Copy s"
  by (simp_all add: rearm_def)

lemma close_snapshot:
  assumes "vGateSegCountdown sb = 1"
  shows "vGateSegCountdown (TIMER2_OVF_vect sb) = 0"
    and "vCtr1OvrFlowsCopy (TIMER2_OVF_vect sb) = vCtr1OvrFlows sb"
    and "vCtr1Copy (TIMER2_OVF_vect sb) = TCNT1 sb"
    and "live (TIMER2_OVF_vect sb) = 0"
  using assms by (simp_all add: t2_close live_def)

lemma snapshot_count:
  "unat (add_copy (load_ovf s) s') = unat (vCtr1OvrFlowsCopy s) * 65536 + unat (vCtr1Copy s')"
  by (simp add: add_copy_def load_ovf_def unat_combine)

lemma timely_call:
  assumes pos: "0 <s vGateSegCountdown s"
    and run: "int (t2_of (hw_of pre)) + 1 = sint (vGateSegCountdown s)"
    and quick: "t2_of (e0 @ ea) = 0"
    and gate: "t2_of (eb @ ec @ mid @ p2) = 5"
  shows "\<exists>c1 s1 c2 s2.
      exec (pre @ Hw T2Overflow # map Hw e0 @ Main # map Hw ea @ Main # map Hw eb @ Main
              # map Hw ec @ [Main]) (Polling, g0, s) = (Returning, c1, s1)
    \<and> c1 = push_bit 16 (ucast (vCtr1OvrFlows (hw_run (hw_of pre) s)))
             OR ucast (TCNT1 (hw_run (hw_of pre) s))
    \<and> unat c1 = (live s + edges_of (hw_of pre)) mod 2 ^ 24
    \<and> sint (vGateSegCountdown s1) = 6 - int (t2_of (eb @ ec))
    \<and> vGateSegCountdown (hw_run (mid @ p2) s1) = 1
    \<and> live (hw_run (mid @ p2) s1) = edges_of (e0 @ ea @ eb @ ec @ mid @ p2) mod 2 ^ 24
    \<and> getGatedCount (hw_run mid s1) (p2 @ T2Overflow # r) = Some (c2, s2, r)
    \<and> unat c2 = edges_of (e0 @ ea @ eb @ ec @ mid @ p2) mod 2 ^ 24
    \<and> vGateSegCountdown s2 = SEGS_PER_GATE"
proof -
  let ?sb = "hw_run (hw_of pre) s"
  let ?sc = "TIMER2_OVF_vect ?sb"
  let ?s0 = "hw_run e0 ?sc"
  let ?sa = "hw_run ea ?s0"
  let ?sr = "rearm ?sa"
  let ?se = "hw_run eb ?sr"
  let ?s1 = "hw_run ec ?se"
  let ?c1 = "add_copy (load_ovf ?se) ?s1"
  have q0: "t2_of e0 = 0" and qa: "t2_of ea = 0" using quick by (simp_all add: t2_of_append)
  have n: "t2_of eb + t2_of ec + t2_of mid + t2_of p2 = 5" using gate by (simp add: t2_of_append)
  have lt: "int (t2_of (hw_of pre)) < sint (vGateSegCountdown s)" using run by simp
  have idle: "exec pre (Polling, g0, s) = (Polling, g0, ?sb)" by (rule exec_polling_idle [OF lt])
  have "sint (vGateSegCountdown ?sb) = 1" using hw_run_open [OF lt] run by simp
  then have one: "vGateSegCountdown ?sb = 1" by (simp add: sint_one_iff)
  have lvb: "live ?sb = (live s + edges_of (hw_of pre)) mod 2 ^ 24"
    using hw_run_open [OF lt] by simp
  note c = close_snapshot [OF one]
  have f0: "vGateSegCountdown ?s0 = 0" "vCtr1OvrFlowsCopy ?s0 = vCtr1OvrFlows ?sb"
    "vCtr1Copy ?s0 = TCNT1 ?sb" "live ?s0 = edges_of e0 mod 2 ^ 24"
    using hw_run_quiet [OF q0, of ?sc] c by simp_all
  have fa: "vCtr1OvrFlowsCopy ?sa = vCtr1OvrFlows ?sb"
    "vCtr1Copy ?sa = TCNT1 ?sb" "live ?sa = edges_of (e0 @ ea) mod 2 ^ 24"
    using hw_run_quiet [OF qa, of ?s0] f0 by (simp_all add: edges_of_append mod_add_left_eq)
  have fr: "vGateSegCountdown ?sr = 6" "vCtr1OvrFlowsCopy ?sr = vCtr1OvrFlows ?sb"
    "vCtr1Copy ?sr = TCNT1 ?sb" "live ?sr = edges_of (e0 @ ea) mod 2 ^ 24"
    using fa by (simp_all add: live_rearm rearm_fields SEGS_PER_GATE_def)
  have ltb: "int (t2_of eb) < sint (vGateSegCountdown ?sr)" using n by (simp add: fr(1))
  have fe: "sint (vGateSegCountdown ?se) = 6 - int (t2_of eb)"
    "vCtr1OvrFlowsCopy ?se = vCtr1OvrFlows ?sb" "vCtr1Copy ?se = TCNT1 ?sb"
    "live ?se = edges_of (e0 @ ea @ eb) mod 2 ^ 24"
    using hw_run_open [OF ltb] fr by (simp_all add: edges_of_append mod_add_left_eq add.assoc)
  have ltc: "int (t2_of ec) < sint (vGateSegCountdown ?se)" using n by (simp add: fe(1))
  have f1: "sint (vGateSegCountdown ?s1) = 6 - int (t2_of (eb @ ec))"
    "vCtr1OvrFlowsCopy ?s1 = vCtr1OvrFlows ?sb" "vCtr1Copy ?s1 = TCNT1 ?sb"
    "live ?s1 = edges_of (e0 @ ea @ eb @ ec) mod 2 ^ 24"
    using hw_run_open [OF ltc] fe
    by (simp_all add: edges_of_append t2_of_append mod_add_left_eq add.assoc)
  have ex: "exec (pre @ Hw T2Overflow # map Hw e0 @ Main # map Hw ea @ Main # map Hw eb @ Main
              # map Hw ec @ [Main]) (Polling, g0, s) = (Returning, ?c1, ?s1)"
    using idle f0(1) by (simp add: exec_append exec_hw)
  have c1: "?c1 = push_bit 16 (ucast (vCtr1OvrFlows ?sb)) OR ucast (TCNT1 ?sb)"
    by (simp add: add_copy_def load_ovf_def fe(2) f1(3) combine_or)
  have u1: "unat ?c1 = (live s + edges_of (hw_of pre)) mod 2 ^ 24"
    by (simp only: snapshot_count fe(2) f1(3) lvb [symmetric]) (simp add: live_def)
  have ltm: "int (t2_of (mid @ p2)) < sint (vGateSegCountdown ?s1)"
    using n by (simp add: f1(1) t2_of_append)
  have "sint (vGateSegCountdown (hw_run (mid @ p2) ?s1)) = 1"
    using hw_run_open [OF ltm] f1(1) n by (simp add: t2_of_append)
  then have one2: "vGateSegCountdown (hw_run (mid @ p2) ?s1) = 1" by (simp add: sint_one_iff)
  have lv2: "live (hw_run (mid @ p2) ?s1) = edges_of (e0 @ ea @ eb @ ec @ mid @ p2) mod 2 ^ 24"
    using hw_run_open [OF ltm] f1(4) by (simp add: edges_of_append mod_add_left_eq add.assoc)
  let ?sm = "hw_run mid ?s1"
  have ltmid: "int (t2_of mid) < sint (vGateSegCountdown ?s1)"
    using n by (simp add: f1(1) t2_of_append)
  have cdm: "sint (vGateSegCountdown ?sm) = 6 - int (t2_of (eb @ ec)) - int (t2_of mid)"
    using hw_run_open [OF ltmid] f1(1) by simp
  have posm: "0 <s vGateSegCountdown ?sm" using cdm n by (simp add: word_sless_alt t2_of_append)
  have runm: "int (t2_of p2) + 1 = sint (vGateSegCountdown ?sm)"
    using cdm n by (simp add: t2_of_append)
  let ?s5 = "hw_run (mid @ p2) ?s1"
  let ?st = "rearm (TIMER2_OVF_vect ?s5)"
  let ?c2 = "add_copy (load_ovf ?st) ?st"
  have gw: "gate_wait ?sm (p2 @ T2Overflow # r) = Some (TIMER2_OVF_vect ?s5, r)"
    using gate_wait_close [OF posm runm] by (simp add: hw_run_append)
  have g2: "getGatedCount ?sm (p2 @ T2Overflow # r) = Some (?c2, ?st, r)"
    by (simp add: getGatedCount_def gw Let_def)
  note c5 = close_snapshot [OF one2]
  have "unat ?c2 = live ?s5"
    by (simp only: snapshot_count rearm_fields c5 live_def)
  then have u2: "unat ?c2 = edges_of (e0 @ ea @ eb @ ec @ mid @ p2) mod 2 ^ 24"
    using lv2 by simp
  have a2: "vGateSegCountdown ?st = SEGS_PER_GATE" by (rule rearm_fields)
  from ex c1 u1 f1(1) one2 lv2 g2 u2 a2 show ?thesis by blast
qed

lemma exec_woken:
  "\<not> 0 <s vGateSegCountdown s \<Longrightarrow>
     exec [Main, Main, Main, Main] (Polling, g0, s)
       = (Returning, add_copy (load_ovf (rearm s)) (rearm s), rearm s)"
  by simp

lemma exec_polling:
  "gate_wait s evs = Some (s1, rest) \<Longrightarrow>
     \<exists>used. evs = used @ rest
       \<and> exec (polling_schedule used) (Polling, g0, s)
           = (Returning, add_copy (load_ovf (rearm s1)) (rearm s1), rearm s1)"
proof (induction evs arbitrary: s)
  case Nil
  then have "\<not> 0 <s vGateSegCountdown s" "s1 = s" "rest = []"
    by (simp_all split: if_splits)
  then have "[] = [] @ rest \<and> exec (polling_schedule []) (Polling, g0, s)
           = (Returning, add_copy (load_ovf (rearm s1)) (rearm s1), rearm s1)"
    by simp
  then show ?case by blast
next
  case (Cons e es)
  show ?case
  proof (cases "0 <s vGateSegCountdown s")
    case True
    with Cons.prems have "gate_wait (hw_step e s) es = Some (s1, rest)" by simp
    from Cons.IH [OF this] obtain used where
      u: "es = used @ rest"
      "exec (polling_schedule used) (Polling, g0, hw_step e s)
           = (Returning, add_copy (load_ovf (rearm s1)) (rearm s1), rearm s1)" by blast
    then have "e # es = (e # used) @ rest
       \<and> exec (polling_schedule (e # used)) (Polling, g0, s)
           = (Returning, add_copy (load_ovf (rearm s1)) (rearm s1), rearm s1)"
      using True by simp
    then show ?thesis by blast
  next
    case False
    with Cons.prems have "s1 = s" "rest = e # es" by simp_all
    then have "e # es = [] @ rest \<and> exec (polling_schedule []) (Polling, g0, s)
           = (Returning, add_copy (load_ovf (rearm s1)) (rearm s1), rearm s1)"
      using False by simp
    then show ?thesis by blast
  qed
qed

lemma getGatedCount_exec:
  assumes "getGatedCount s evs = Some (c, s', rest)"
  shows "\<exists>used. evs = used @ rest
       \<and> exec (polling_schedule used) (Polling, g0, s) = (Returning, c, s')"
proof -
  from assms obtain s1 where w: "gate_wait s evs = Some (s1, rest)" and s': "s' = rearm s1"
    and c: "c = add_copy (load_ovf (rearm s1)) (rearm s1)"
    by (auto simp: getGatedCount_def Let_def split: option.splits)
  from exec_polling [OF w] show ?thesis using s' c by simp
qed

text \<open>
  Claim C2, as the code has it. The first gate closes on the sixth overflow of timer 2
  with 10 edges counted. The caller is late: 20 more edges and a seventh overflow pass
  before it calls \<open>getGatedCount\<close>. The call finds the countdown at -1, returns 10 at
  once and re-arms. The next gate closes six overflows after the re-arm, seven after the
  previous close, and its count is 50: the 30 edges of its six segments and the 20 that
  arrived before the re-arm. The gate cycle between the two closes is not one of exactly
  \<open>SEGS_PER_GATE\<close> segments.
\<close>

theorem late_call_long_gate_counterexample:
  "getGatedCount
     (hw_run [Edges 10, T2Overflow, T2Overflow, T2Overflow, T2Overflow, T2Overflow, T2Overflow,
              Edges 20, T2Overflow] gate_init)
     [Edges 30, T2Overflow, T2Overflow, T2Overflow, T2Overflow, T2Overflow, T2Overflow]
     = Some (10, gate_init\<lparr>TCNT1 := 20, vCtr1Copy := 10\<rparr>,
         [Edges 30, T2Overflow, T2Overflow, T2Overflow, T2Overflow, T2Overflow, T2Overflow])
   \<and> sint (vGateSegCountdown
        (hw_run [Edges 10, T2Overflow, T2Overflow, T2Overflow, T2Overflow, T2Overflow, T2Overflow,
                 Edges 20, T2Overflow] gate_init)) = - 1
   \<and> getGatedCount (gate_init\<lparr>TCNT1 := 20, vCtr1Copy := 10\<rparr>)
        [Edges 30, T2Overflow, T2Overflow, T2Overflow, T2Overflow, T2Overflow, T2Overflow]
     = Some (50, gate_init\<lparr>vCtr1Copy := 50\<rparr>, [])
   \<and> t2_of ([Edges 20, T2Overflow]
        @ [Edges 30, T2Overflow, T2Overflow, T2Overflow, T2Overflow, T2Overflow, T2Overflow]) = 7
   \<and> edges_of [Edges 30, T2Overflow, T2Overflow, T2Overflow, T2Overflow, T2Overflow,
        T2Overflow] = 30
   \<and> sint SEGS_PER_GATE = 6"
  by (simp add: getGatedCount_def gate_init_def SEGS_PER_GATE_def edges_closed
      TIMER2_OVF_vect_def rearm_def load_ovf_def add_copy_def Let_def word_sless_alt)

text \<open>
  Claim C2, amended. In every execution of \<open>getGatedCount\<close>, whatever the interleaving
  of its statements with hardware events: while the main program is in the loop, or has
  just left it, \<open>gCount\<close> holds what it held on entry, so nothing has been read; once it
  is past that point, it left the loop at a test that found the countdown not positive,
  and the statement it ran next, with only hardware events in between, assigned
  \<open>SEGS_PER_GATE\<close> to the countdown and read nothing. The two reads come after. The
  function \<open>getGatedCount\<close> above is this execution under the schedule that polls
  between events.

  For a call that re-arms before the first timer-2 overflow after the close: let a gate
  run, with any schedule \<open>pre\<close> of polls and events up to its last overflow (the caller
  may still be busy: then \<open>pre\<close> has no polls). Let the events \<open>e0\<close> between the closing
  overflow and the test that sees it, and the events \<open>ea\<close> between that test and the
  re-arm, hold no overflow of timer 2; \<open>eb\<close> and \<open>ec\<close> are the events between the re-arm,
  the first read and the second read. The call returns the count snapshotted at the
  close. Overflows that fall after the re-arm, while the count is read (\<open>eb\<close>, \<open>ec\<close>) or
  while the caller works (\<open>mid\<close>), count towards the new gate: on return the countdown is
  \<open>SEGS_PER_GATE\<close> less the overflows of \<open>eb\<close> and \<open>ec\<close>, the new gate closes on exactly
  the \<open>SEGS_PER_GATE\<close>-th overflow after the previous close, and the count the next call
  returns is the number of edges between the two closes, those that arrived during the
  caller's processing included and none from before (modulo \<open>2 ^ 24\<close>).
\<close>

theorem rearm_first_fresh_gate:
  assumes pos: "0 <s vGateSegCountdown s"
    and run: "int (t2_of (hw_of pre)) + 1 = sint (vGateSegCountdown s)"
    and quick: "t2_of (e0 @ ea) = 0"
    and gate: "int (t2_of (eb @ ec @ mid @ p2)) + 1 = sint SEGS_PER_GATE"
  shows "(\<forall>sch g s0 p c s'. exec sch (Polling, g, s0) = (p, c, s') \<longrightarrow>
            (if p = Polling \<or> p = Woken then c = g
             else (\<exists>a evs b gp. sch = a @ Main # map Hw evs @ Main # b
               \<and> exec a (Polling, g, s0) = (Polling, g, gp) \<and> \<not> 0 <s vGateSegCountdown gp
               \<and> exec (a @ Main # map Hw evs @ [Main]) (Polling, g, s0)
                   = (Rearmed, g, (hw_run evs gp)\<lparr>vGateSegCountdown := SEGS_PER_GATE\<rparr>))))
    \<and> (\<forall>s0 evs c s' rest. getGatedCount s0 evs = Some (c, s', rest) \<longrightarrow>
            (\<exists>used. evs = used @ rest
               \<and> exec (polling_schedule used) (Polling, g0, s0) = (Returning, c, s')))
    \<and> (\<exists>c1 s1 c2 s2.
          exec (pre @ Hw T2Overflow # map Hw e0 @ Main # map Hw ea @ Main # map Hw eb @ Main
                  # map Hw ec @ [Main]) (Polling, g0, s) = (Returning, c1, s1)
        \<and> c1 = push_bit 16 (ucast (vCtr1OvrFlows (hw_run (hw_of pre) s)))
                 OR ucast (TCNT1 (hw_run (hw_of pre) s))
        \<and> unat c1 = (live s + edges_of (hw_of pre)) mod 2 ^ 24
        \<and> sint (vGateSegCountdown s1) = sint SEGS_PER_GATE - int (t2_of (eb @ ec))
        \<and> vGateSegCountdown (hw_run (mid @ p2) s1) = 1
        \<and> int (t2_of (e0 @ ea @ eb @ ec @ mid @ p2 @ [T2Overflow])) = sint SEGS_PER_GATE
        \<and> live (hw_run (mid @ p2) s1) = edges_of (e0 @ ea @ eb @ ec @ mid @ p2) mod 2 ^ 24
        \<and> getGatedCount (hw_run mid s1) (p2 @ T2Overflow # r) = Some (c2, s2, r)
        \<and> unat c2 = edges_of (e0 @ ea @ eb @ ec @ mid @ p2) mod 2 ^ 24
        \<and> vGateSegCountdown s2 = SEGS_PER_GATE)"
proof -
  have order: "\<forall>sch g s0 p c s'. exec sch (Polling, g, s0) = (p, c, s') \<longrightarrow>
            (if p = Polling \<or> p = Woken then c = g
             else (\<exists>a evs b gp. sch = a @ Main # map Hw evs @ Main # b
               \<and> exec a (Polling, g, s0) = (Polling, g, gp) \<and> \<not> 0 <s vGateSegCountdown gp
               \<and> exec (a @ Main # map Hw evs @ [Main]) (Polling, g, s0)
                   = (Rearmed, g, (hw_run evs gp)\<lparr>vGateSegCountdown := SEGS_PER_GATE\<rparr>)))"
  proof (intro allI impI)
    fix sch g s0 p c s'
    assume e: "exec sch (Polling, g, s0) = (p, c, s')"
    show "if p = Polling \<or> p = Woken then c = g
             else (\<exists>a evs b gp. sch = a @ Main # map Hw evs @ Main # b
               \<and> exec a (Polling, g, s0) = (Polling, g, gp) \<and> \<not> 0 <s vGateSegCountdown gp
               \<and> exec (a @ Main # map Hw evs @ [Main]) (Polling, g, s0)
                   = (Rearmed, g, (hw_run evs gp)\<lparr>vGateSegCountdown := SEGS_PER_GATE\<rparr>))"
    proof (cases "p = Polling \<or> p = Woken")
      case True
      with unread_before_rearm [OF e] show ?thesis by simp
    next
      case False
      then have "p \<noteq> Polling" "p \<noteq> Woken" by simp_all
      from rearm_first [OF e this] False show ?thesis by simp
    qed
  qed
  have link: "\<forall>s0 evs c s' rest. getGatedCount s0 evs = Some (c, s', rest) \<longrightarrow>
            (\<exists>used. evs = used @ rest
               \<and> exec (polling_schedule used) (Polling, g0, s0) = (Returning, c, s'))"
    using getGatedCount_exec by blast
  have five: "t2_of (eb @ ec @ mid @ p2) = 5" using gate by (simp add: SEGS_PER_GATE_def)
  have six: "int (t2_of (e0 @ ea @ eb @ ec @ mid @ p2 @ [T2Overflow])) = sint SEGS_PER_GATE"
    using quick gate by (simp add: t2_of_append)
  from timely_call [OF pos run quick five, of g0 r] obtain c1 s1 c2 s2 where
    t: "exec (pre @ Hw T2Overflow # map Hw e0 @ Main # map Hw ea @ Main # map Hw eb @ Main
                  # map Hw ec @ [Main]) (Polling, g0, s) = (Returning, c1, s1)"
      "c1 = push_bit 16 (ucast (vCtr1OvrFlows (hw_run (hw_of pre) s)))
                 OR ucast (TCNT1 (hw_run (hw_of pre) s))"
      "unat c1 = (live s + edges_of (hw_of pre)) mod 2 ^ 24"
      "sint (vGateSegCountdown s1) = 6 - int (t2_of (eb @ ec))"
      "vGateSegCountdown (hw_run (mid @ p2) s1) = 1"
      "live (hw_run (mid @ p2) s1) = edges_of (e0 @ ea @ eb @ ec @ mid @ p2) mod 2 ^ 24"
      "getGatedCount (hw_run mid s1) (p2 @ T2Overflow # r) = Some (c2, s2, r)"
      "unat c2 = edges_of (e0 @ ea @ eb @ ec @ mid @ p2) mod 2 ^ 24"
      "vGateSegCountdown s2 = SEGS_PER_GATE"
    by blast
  have cd: "sint (vGateSegCountdown s1) = sint SEGS_PER_GATE - int (t2_of (eb @ ec))"
    using t(4) by (simp add: SEGS_PER_GATE_def)
  from t(1,2,3) cd t(5) six t(6,7,8,9)
  have "\<exists>c1 s1 c2 s2.
          exec (pre @ Hw T2Overflow # map Hw e0 @ Main # map Hw ea @ Main # map Hw eb @ Main
                  # map Hw ec @ [Main]) (Polling, g0, s) = (Returning, c1, s1)
        \<and> c1 = push_bit 16 (ucast (vCtr1OvrFlows (hw_run (hw_of pre) s)))
                 OR ucast (TCNT1 (hw_run (hw_of pre) s))
        \<and> unat c1 = (live s + edges_of (hw_of pre)) mod 2 ^ 24
        \<and> sint (vGateSegCountdown s1) = sint SEGS_PER_GATE - int (t2_of (eb @ ec))
        \<and> vGateSegCountdown (hw_run (mid @ p2) s1) = 1
        \<and> int (t2_of (e0 @ ea @ eb @ ec @ mid @ p2 @ [T2Overflow])) = sint SEGS_PER_GATE
        \<and> live (hw_run (mid @ p2) s1) = edges_of (e0 @ ea @ eb @ ec @ mid @ p2) mod 2 ^ 24
        \<and> getGatedCount (hw_run mid s1) (p2 @ T2Overflow # r) = Some (c2, s2, r)
        \<and> unat c2 = edges_of (e0 @ ea @ eb @ ec @ mid @ p2) mod 2 ^ 24
        \<and> vGateSegCountdown s2 = SEGS_PER_GATE"
    by blast
  with order link show ?thesis by (intro conjI)
qed

theorem rearm_first_fresh_gate_witness:
  "0 <s vGateSegCountdown gate_init
   \<and> int (t2_of (hw_of [Main, Hw (Edges 500000), Main, Hw T2Overflow, Hw T2Overflow, Main,
        Hw T2Overflow, Hw T2Overflow, Hw T2Overflow])) + 1 = sint (vGateSegCountdown gate_init)
   \<and> t2_of ([Edges 1] @ [Edges 2]) = 0
   \<and> int (t2_of ([Edges 3, T2Overflow] @ [Edges 4] @ [Edges 5, T2Overflow]
        @ [Edges 6, T2Overflow, T2Overflow, T2Overflow])) + 1 = sint SEGS_PER_GATE
   \<and> (\<exists>c1 s1 c2 s2.
         exec ([Main, Hw (Edges 500000), Main, Hw T2Overflow, Hw T2Overflow, Main,
                Hw T2Overflow, Hw T2Overflow, Hw T2Overflow]
               @ Hw T2Overflow # map Hw [Edges 1] @ Main # map Hw [Edges 2] @ Main
               # map Hw [Edges 3, T2Overflow] @ Main # map Hw [Edges 4] @ [Main])
           (Polling, 0, gate_init) = (Returning, c1, s1)
       \<and> unat c1 = 500000
       \<and> sint (vGateSegCountdown s1) = 5
       \<and> getGatedCount (hw_run [Edges 5, T2Overflow] s1)
           ([Edges 6, T2Overflow, T2Overflow, T2Overflow] @ T2Overflow # [Edges 9])
           = Some (c2, s2, [Edges 9])
       \<and> unat c2 = 21
       \<and> vGateSegCountdown s2 = SEGS_PER_GATE)"
proof -
  let ?pre = "[Main, Hw (Edges 500000), Main, Hw T2Overflow, Hw T2Overflow, Main,
        Hw T2Overflow, Hw T2Overflow, Hw T2Overflow]"
  have h1: "0 <s vGateSegCountdown gate_init"
    by (simp add: gate_init_def SEGS_PER_GATE_def word_sless_alt)
  have h2: "int (t2_of (hw_of ?pre)) + 1 = sint (vGateSegCountdown gate_init)"
    by (simp add: gate_init_def SEGS_PER_GATE_def)
  have h3: "t2_of ([Edges 1] @ [Edges 2]) = 0" by simp
  have h4: "int (t2_of ([Edges 3, T2Overflow] @ [Edges 4] @ [Edges 5, T2Overflow]
        @ [Edges 6, T2Overflow, T2Overflow, T2Overflow])) + 1 = sint SEGS_PER_GATE"
    by (simp add: SEGS_PER_GATE_def)
  from rearm_first_fresh_gate [OF h1 h2 h3 h4, of 0 "[Edges 9]", THEN conjunct2, THEN conjunct2]
  obtain c1 s1 c2 s2 where
    t: "exec (?pre @ Hw T2Overflow # map Hw [Edges 1] @ Main # map Hw [Edges 2] @ Main
               # map Hw [Edges 3, T2Overflow] @ Main # map Hw [Edges 4] @ [Main])
           (Polling, 0, gate_init) = (Returning, c1, s1)"
      "unat c1 = (live gate_init + edges_of (hw_of ?pre)) mod 2 ^ 24"
      "sint (vGateSegCountdown s1) = sint SEGS_PER_GATE - int (t2_of ([Edges 3, T2Overflow] @ [Edges 4]))"
      "getGatedCount (hw_run [Edges 5, T2Overflow] s1)
           ([Edges 6, T2Overflow, T2Overflow, T2Overflow] @ T2Overflow # [Edges 9])
           = Some (c2, s2, [Edges 9])"
      "unat c2 = edges_of ([Edges 1] @ [Edges 2] @ [Edges 3, T2Overflow] @ [Edges 4]
           @ [Edges 5, T2Overflow] @ [Edges 6, T2Overflow, T2Overflow, T2Overflow]) mod 2 ^ 24"
      "vGateSegCountdown s2 = SEGS_PER_GATE"
    by blast
  have u1: "unat c1 = 500000" using t(2) by (simp add: live_def gate_init_def)
  have cd: "sint (vGateSegCountdown s1) = 5" using t(3) by (simp add: SEGS_PER_GATE_def)
  have u2: "unat c2 = 21" using t(5) by simp
  from t(1) u1 cd t(4) u2 t(6)
  have "\<exists>c1 s1 c2 s2.
         exec (?pre @ Hw T2Overflow # map Hw [Edges 1] @ Main # map Hw [Edges 2] @ Main
               # map Hw [Edges 3, T2Overflow] @ Main # map Hw [Edges 4] @ [Main])
           (Polling, 0, gate_init) = (Returning, c1, s1)
       \<and> unat c1 = 500000
       \<and> sint (vGateSegCountdown s1) = 5
       \<and> getGatedCount (hw_run [Edges 5, T2Overflow] s1)
           ([Edges 6, T2Overflow, T2Overflow, T2Overflow] @ T2Overflow # [Edges 9])
           = Some (c2, s2, [Edges 9])
       \<and> unat c2 = 21
       \<and> vGateSegCountdown s2 = SEGS_PER_GATE"
    by blast
  with h1 h2 h3 h4 show ?thesis by (intro conjI)
qed

section \<open>Properties of the sketch\<close>

subsection \<open>Fields that the output helpers leave alone\<close>

lemma digitalWrite_fields [simp]:
  "gate (digitalWrite p v w) = gate w"
  "scaleFactor (digitalWrite p v w) = scaleFactor w"
  "fDDS (digitalWrite p v w) = fDDS w"
  "trackMode (digitalWrite p v w) = trackMode w"
  "lockMode (digitalWrite p v w) = lockMode w"
  "oldLockBtnPressed (digitalWrite p v w) = oldLockBtnPressed w"
  "eeprom (digitalWrite p v w) = eeprom w"
  "serial (digitalWrite p v w) = serial w"
  "pinWrites (digitalWrite p v w) = pinWrites w @ [(p, v)]"
  "pinLevel (digitalWrite p v w) = (pinLevel w)(p := v)"
  by (simp_all add: digitalWrite_def)

lemma pulseHigh_fields [simp]:
  "gate (pulseHigh p w) = gate w"
  "scaleFactor (pulseHigh p w) = scaleFactor w"
  "fDDS (pulseHigh p w) = fDDS w"
  "trackMode (pulseHigh p w) = trackMode w"
  "lockMode (pulseHigh p w) = lockMode w"
  "oldLockBtnPressed (pulseHigh p w) = oldLockBtnPressed w"
  "eeprom (pulseHigh p w) = eeprom w"
  "serial (pulseHigh p w) = serial w"
  "pinWrites (pulseHigh p w) = pinWrites w @ [(p, True), (p, False)]"
  by (simp_all add: pulseHigh_def)

lemma Serial_print_fields [simp]:
  "gate (Serial_print x w) = gate w"
  "scaleFactor (Serial_print x w) = scaleFactor w"
  "fDDS (Serial_print x w) = fDDS w"
  "trackMode (Serial_print x w) = trackMode w"
  "lockMode (Serial_print x w) = lockMode w"
  "oldLockBtnPressed (Serial_print x w) = oldLockBtnPressed w"
  "eeprom (Serial_print x w) = eeprom w"
  "pinWrites (Serial_print x w) = pinWrites w"
  "pinLevel (Serial_print x w) = pinLevel w"
  "serial (Serial_print x w) = serial w @ [x]"
  by (simp_all add: Serial_print_def)

lemma Serial_println_fields [simp]:
  "gate (Serial_println x w) = gate w"
  "scaleFactor (Serial_println x w) = scaleFactor w"
  "fDDS (Serial_println x w) = fDDS w"
  "trackMode (Serial_println x w) = trackMode w"
  "lockMode (Serial_println x w) = lockMode w"
  "oldLockBtnPressed (Serial_println x w) = oldLockBtnPressed w"
  "eeprom (Serial_println x w) = eeprom w"
  "pinWrites (Serial_println x w) = pinWrites w"
  "pinLevel (Serial_println x w) = pinLevel w"
  "serial (Serial_println x w) = serial w @ [x, Newline]"
  by (simp_all add: Serial_println_def)

lemma tfr_bits_fields [simp]:
  "gate (tfr_bits n b w) = gate w"
  "scaleFactor (tfr_bits n b w) = scaleFactor w"
  "fDDS (tfr_bits n b w) = fDDS w"
  "trackMode (tfr_bits n b w) = trackMode w"
  "lockMode (tfr_bits n b w) = lockMode w"
  "oldLockBtnPressed (tfr_bits n b w) = oldLockBtnPressed w"
  "eeprom (tfr_bits n b w) = eeprom w"
  "serial (tfr_bits n b w) = serial w"
  by (induction n arbitrary: b w; simp)+

lemma tfr_byte_fields [simp]:
  "gate (tfr_byte b w) = gate w"
  "scaleFactor (tfr_byte b w) = scaleFactor w"
  "fDDS (tfr_byte b w) = fDDS w"
  "trackMode (tfr_byte b w) = trackMode w"
  "lockMode (tfr_byte b w) = lockMode w"
  "oldLockBtnPressed (tfr_byte b w) = oldLockBtnPressed w"
  "eeprom (tfr_byte b w) = eeprom w"
  "serial (tfr_byte b w) = serial w"
  by (simp_all add: tfr_byte_def)

lemma tfr_word_fields [simp]:
  "gate (tfr_word n t w) = gate w"
  "scaleFactor (tfr_word n t w) = scaleFactor w"
  "fDDS (tfr_word n t w) = fDDS w"
  "trackMode (tfr_word n t w) = trackMode w"
  "lockMode (tfr_word n t w) = lockMode w"
  "oldLockBtnPressed (tfr_word n t w) = oldLockBtnPressed w"
  "eeprom (tfr_word n t w) = eeprom w"
  "serial (tfr_word n t w) = serial w"
  by (induction n arbitrary: t w; simp)+

subsection \<open>The synthesizer driver\<close>

lemma tfr_bits_writes:
  "pinWrites (tfr_bits n b w) = pinWrites w @ concat (map (\<lambda>i. bit_cell (bit b i)) [0..<n])"
proof (induction n arbitrary: b w)
  case 0
  show ?case by simp
next
  case (Suc n)
  have lsb: "(b AND 1 \<noteq> 0) = bit b 0" by (simp add: and_one_eq bit_0 mod_2_eq_odd)
  have sh: "\<And>i. bit (drop_bit (Suc 0) b) i = bit b (Suc i)" by (simp add: bit_drop_bit_eq)
  have "[0..<Suc n] = 0 # map Suc [0..<n]" by (simp add: upt_conv_Cons map_Suc_upt del: upt_Suc)
  then show ?case
    by (simp add: Suc lsb sh bit_cell_def comp_def del: upt_Suc)
qed

lemma tfr_byte_writes:
  "pinWrites (tfr_byte b w) = pinWrites w @ concat (map (\<lambda>i. bit_cell (bit b i)) [0..<8])"
  unfolding tfr_byte_def by (rule tfr_bits_writes)

lemma low_byte_bits:
  "map (\<lambda>i. bit_cell (bit (ucast (t AND 0xFF :: 32 word) :: 8 word) i)) [0..<8]
     = map (\<lambda>i. bit_cell (bit t i)) [0..<8]"
proof (rule map_cong [OF refl])
  fix i assume "i \<in> set [0..<8]"
  then have i: "i < 8" by simp
  have "t AND 0xFF = take_bit 8 t" by (simp add: take_bit_eq_mask mask_eq_exp_minus_1)
  then have "bit (ucast (t AND 0xFF) :: 8 word) i = bit t i"
    using i by (simp add: bit_ucast_iff bit_take_bit_iff)
  then show "bit_cell (bit (ucast (t AND 0xFF) :: 8 word) i) = bit_cell (bit t i)" by simp
qed

lemma upt_shift8: "[0..<8 * Suc n] = [0..<8] @ map (\<lambda>i. 8 + i) [0..<8 * n]"
proof -
  have "[0..<8 * Suc n] = [0..<8 + 8 * n]" by simp
  also have "\<dots> = [0..<8] @ [8..<8 + 8 * n]" by (rule upt_add_eq_append) simp
  also have "[8..<8 + 8 * n] = map (\<lambda>i. 8 + i) [0..<8 * n]"
    by (simp add: map_add_upt add.commute)
  finally show ?thesis .
qed

lemma tfr_word_writes:
  "pinWrites (tfr_word n t w) = pinWrites w @ concat (map (\<lambda>i. bit_cell (bit t i)) [0..<8 * n])"
proof (induction n arbitrary: t w)
  case 0
  show ?case by simp
next
  case (Suc n)
  have sh: "\<And>i. bit (drop_bit 8 t) i = bit t (8 + i)" by (simp add: bit_drop_bit_eq)
  have "pinWrites (tfr_word (Suc n) t w)
      = pinWrites w @ concat (map (\<lambda>i. bit_cell (bit t i)) [0..<8])
          @ concat (map (\<lambda>i. bit_cell (bit t (8 + i))) [0..<8 * n])"
    by (simp add: Suc tfr_byte_writes low_byte_bits sh)
  also have "\<dots> = pinWrites w @ concat (map (\<lambda>i. bit_cell (bit t i)) [0..<8 * Suc n])"
    by (simp only: upt_shift8 map_append concat_append map_map comp_def)
  finally show ?case .
qed

lemma zero_byte_bits: "map (\<lambda>i. bit_cell False) [0..<8] = replicate 8 (bit_cell False)"
  by (simp add: map_replicate_const)


lemma band_cond:
  "(word_of_int F_MIN < f \<and> f < word_of_int F_MAX) \<longleftrightarrow> (F_MIN < uint f \<and> uint f < F_MAX)"
  for f :: "32 word"
  by (simp add: word_less_def F_MIN_def F_MAX_def)

lemma ddsTraffic_append_frame:
  "pinWrites w' = pinWrites w @ dds_frame t \<Longrightarrow> ddsTraffic w' = ddsTraffic w @ dds_frame t"
proof -
  assume a: "pinWrites w' = pinWrites w @ dds_frame t"
  have "\<forall>x \<in> set (dds_frame t). (\<lambda>(p, v). is_dds_pin p) x"
    by (auto simp: dds_frame_def bit_cell_def is_dds_pin_def)
  then have "filter (\<lambda>(p, v). is_dds_pin p) (dds_frame t) = dds_frame t"
    by (simp only: filter_True)
  then show ?thesis by (simp add: ddsTraffic_def a)
qed

lemma dds_frame_nonempty: "dds_frame t \<noteq> []"
  by (simp add: dds_frame_def)

lemma ddsSetFreq_in:
  assumes "F_MIN < uint f" "uint f < F_MAX"
  shows "pinWrites (ddsSetFreq f w)
      = pinWrites w @ dds_frame (double_to_uint32 (real (unat f) * TWO_POW_32 / 125000000))"
    and "serial (ddsSetFreq f w) = serial w"
  using assms band_cond [of f]
  by (simp_all add: ddsSetFreq_def Let_def tfr_word_writes tfr_byte_writes zero_byte_bits
      dds_frame_def)

lemma ddsSetFreq_out:
  assumes "\<not> (F_MIN < uint f \<and> uint f < F_MAX)"
  shows "ddsSetFreq f w = w\<lparr>serial := serial w @ [Str ''----- Warning, fDDS = '', ULong f,
           Str '', out of range for Yaesu VFO.  Not setting -----'', Newline]\<rparr>"
proof -
  have "\<not> (word_of_int F_MIN < f \<and> f < word_of_int F_MAX)"
    using assms band_cond [of f] by blast
  then show ?thesis unfolding ddsSetFreq_def Let_def
    by (simp only: if_False) (simp add: Serial_print_def Serial_println_def)
qed

text \<open>
  Claim C3, as the code has it. The claim puts the band's two ends inside; the guard of
  \<open>ddsSetFreq\<close> is strict at both. At \<open>F_MIN\<close> and at \<open>F_MAX\<close> themselves nothing
  reaches the synthesizer's pins.
\<close>

theorem ddsSetFreq_closed_band_counterexample:
  "F_MIN \<le> uint (4950000 :: 32 word) \<and> uint (4950000 :: 32 word) \<le> F_MAX
   \<and> ddsTraffic (ddsSetFreq 4950000 (world_init None)) = ddsTraffic (world_init None)
   \<and> F_MIN \<le> uint (5550000 :: 32 word) \<and> uint (5550000 :: 32 word) \<le> F_MAX
   \<and> ddsTraffic (ddsSetFreq 5550000 (world_init None)) = ddsTraffic (world_init None)"
  by (simp add: F_MIN_def F_MAX_def ddsSetFreq_def Let_def ddsTraffic_def)

text \<open>
  Claim C3, amended. \<open>ddsSetFreq\<close> puts a command on the synthesizer's pins exactly when
  \<open>F_MIN < f < F_MAX\<close>: then the pins receive the complete command for the tuning word of
  \<open>f\<close> and nothing is printed. For every other \<open>f\<close>, the two ends of the band
  included, the only effect is the warning on the serial line: no pin is written, so the
  synthesizer keeps its state.
\<close>

theorem ddsSetFreq_band:
  "(F_MIN < uint f \<and> uint f < F_MAX \<longrightarrow>
      ddsTraffic (ddsSetFreq f w)
        = ddsTraffic w @ dds_frame (double_to_uint32 (real (unat f) * TWO_POW_32 / 125000000))
      \<and> serial (ddsSetFreq f w) = serial w)
   \<and> (\<not> (F_MIN < uint f \<and> uint f < F_MAX) \<longrightarrow>
      ddsSetFreq f w = w\<lparr>serial := serial w @ [Str ''----- Warning, fDDS = '', ULong f,
           Str '', out of range for Yaesu VFO.  Not setting -----'', Newline]\<rparr>)
   \<and> (ddsTraffic (ddsSetFreq f w) \<noteq> ddsTraffic w \<longleftrightarrow> F_MIN < uint f \<and> uint f < F_MAX)"
proof (cases "F_MIN < uint f \<and> uint f < F_MAX")
  case True
  then have t: "ddsTraffic (ddsSetFreq f w)
        = ddsTraffic w @ dds_frame (double_to_uint32 (real (unat f) * TWO_POW_32 / 125000000))"
    by (intro ddsTraffic_append_frame ddsSetFreq_in) simp_all
  then have "ddsTraffic (ddsSetFreq f w) \<noteq> ddsTraffic w" by (simp add: dds_frame_nonempty)
  with True t ddsSetFreq_in(2) [of f w] show ?thesis by simp
next
  case False
  from ddsSetFreq_out [OF False, of w] have e: "ddsSetFreq f w = w\<lparr>serial := serial w @ [Str ''----- Warning, fDDS = '', ULong f,
           Str '', out of range for Yaesu VFO.  Not setting -----'', Newline]\<rparr>" .
  then have "ddsTraffic (ddsSetFreq f w) = ddsTraffic w" by (simp add: ddsTraffic_def)
  with False e show ?thesis by simp
qed

theorem ddsSetFreq_band_witness:
  "F_MIN < uint (5250000 :: 32 word) \<and> uint (5250000 :: 32 word) < F_MAX
   \<and> ddsTraffic (ddsSetFreq 5250000 (world_init None))
        = ddsTraffic (world_init None) @ dds_frame 180388626
   \<and> \<not> (F_MIN < uint (0 :: 32 word) \<and> uint (0 :: 32 word) < F_MAX)
   \<and> ddsSetFreq 0 (world_init None) = (world_init None)\<lparr>serial := serial (world_init None)
        @ [Str ''----- Warning, fDDS = '', ULong 0,
           Str '', out of range for Yaesu VFO.  Not setting -----'', Newline]\<rparr>
   \<and> ddsTraffic (ddsSetFreq 0 (world_init None)) = ddsTraffic (world_init None)"
  using ddsSetFreq_band [of 5250000 "world_init None"] ddsSetFreq_band [of 0 "world_init None"]
  by (simp add: F_MIN_def F_MAX_def TWO_POW_32_def double_to_uint32_def ddsTraffic_def)

subsection \<open>Rounding\<close>

lemma bit_width_eq: "2 ^ k \<le> n \<Longrightarrow> n < 2 ^ Suc k \<Longrightarrow> bit_width n = Suc k"
proof (induction k arbitrary: n)
  case 0
  then have "n = 1" by simp
  then show ?case by (simp add: bit_width.simps)
next
  case (Suc k)
  then have "2 ^ k \<le> n div 2" "n div 2 < 2 ^ Suc k" by auto
  from Suc.IH [OF this] have "bit_width (n div 2) = Suc k" .
  moreover have "0 < (2::nat) ^ Suc k" by simp
  then have "n \<noteq> 0" using Suc.prems(1) by linarith
  ultimately show ?case by (subst bit_width.simps) simp
qed

lemma double_exponent_eq:
  assumes lo: "2 powi e \<le> x" and hi: "x < 2 powi (e + 1)" and r: "- 126 \<le> e"
  shows "double_exponent x = e"
proof (cases "0 \<le> e")
  case True
  define k where "k = nat e"
  have e: "e = int k" using True by (simp add: k_def)
  have lo': "2 ^ k \<le> x" using lo by (simp add: e)
  have hi': "x < 2 ^ Suc k" using hi by (simp add: e power_int_add)
  have x1: "1 \<le> x" using lo' one_le_power [of "2::real" k] by linarith
  have "(2::int) ^ k \<le> \<lfloor>x\<rfloor>" using lo' by (simp add: le_floor_iff)
  then have a: "2 ^ k \<le> nat \<lfloor>x\<rfloor>" by (simp add: le_nat_iff)
  have "\<lfloor>x\<rfloor> < 2 ^ Suc k" using hi' by (simp add: floor_less_iff)
  then have b: "nat \<lfloor>x\<rfloor> < 2 ^ Suc k" using x1 by (simp add: nat_less_iff)
  from bit_width_eq [OF a b] show ?thesis using x1 r e by (simp add: double_exponent_def)
next
  case False
  define k where "k = nat (- e - 1)"
  have e: "e = - int k - 1" using False by (simp add: k_def)
  have "0 < (2::real) powi e" by simp
  then have xpos: "0 < x" using lo by linarith
  have p1: "(2::real) powi (- int k - 1) = 1 / 2 ^ Suc k"
    by (simp add: power_int_def nat_add_distrib field_simps)
  have p2: "(2::real) powi (- int k) = 1 / 2 ^ k"
    by (simp add: power_int_def field_simps)
  have lo': "1 / 2 ^ Suc k \<le> x" using lo by (simp only: e p1)
  have hi': "x < 1 / 2 ^ k" using hi by (simp add: e p2)
  have "1 / 2 ^ k \<le> (1::real)" using one_le_power [of "2::real" k] by simp
  then have x1: "x < 1" using hi' by linarith
  have u: "1 / x \<le> 2 ^ Suc k" using lo' xpos by (simp add: field_simps)
  have l: "2 ^ k < 1 / x" using hi' xpos by (simp add: field_simps)
  have c1: "\<lceil>1 / x\<rceil> \<le> 2 ^ Suc k" using u by (simp add: ceiling_le_iff)
  have c2: "(2::int) ^ k < \<lceil>1 / x\<rceil>" using l by (simp add: less_ceiling_iff)
  have c3: "0 < (2::int) ^ k" by simp
  have c4: "0 \<le> \<lceil>1 / x\<rceil> - 1" using c2 c3 by linarith
  have c5: "int (nat (\<lceil>1 / x\<rceil> - 1)) = \<lceil>1 / x\<rceil> - 1" using c4 by (rule nat_0_le)
  have c6: "int (2 ^ Suc k) = 2 ^ Suc k" "int (2 ^ k) = 2 ^ k" by simp_all
  have "int (nat (\<lceil>1 / x\<rceil> - 1)) < int (2 ^ Suc k)" unfolding c5 c6 using c1 by linarith
  then have b: "nat (\<lceil>1 / x\<rceil> - 1) < 2 ^ Suc k" by (simp only: of_nat_less_iff)
  have "int (2 ^ k) \<le> int (nat (\<lceil>1 / x\<rceil> - 1))" unfolding c5 c6 using c2 by linarith
  then have a: "2 ^ k \<le> nat (\<lceil>1 / x\<rceil> - 1)" by (simp only: of_nat_le_iff)
  from bit_width_eq [OF a b] show ?thesis using x1 r e by (simp add: double_exponent_def)
qed

text \<open>Rounding a positive number whose exponent is known.\<close>

lemma double_round_eval:
  assumes "2 powi e \<le> x" "x < 2 powi (e + 1)" "- 126 \<le> e"
  shows "double_round x = of_int (round_even (x / 2 powi (e - 23))) * 2 powi (e - 23)"
proof -
  have "0 < (2::real) powi e" by simp
  then have xpos: "0 < x" using assms(1) by linarith
  then show ?thesis
    using double_exponent_eq [OF assms] by (simp add: double_round_def Let_def)
qed

lemma double_round_0: "double_round 0 = 0"
  by (simp add: double_round_def)

lemma power_bounds: "0 < n \<Longrightarrow> \<exists>k. 2 ^ k \<le> n \<and> n < 2 ^ Suc k" for n :: nat
proof (induction n rule: less_induct)
  case (less n)
  show ?case
  proof (cases "n = 1")
    case True
    then have "2 ^ 0 \<le> n \<and> n < 2 ^ Suc 0" by simp
    then show ?thesis by blast
  next
    case False
    with less.prems have "0 < n div 2" "n div 2 < n" by auto
    from less.IH [OF this(2,1)] obtain k where "2 ^ k \<le> n div 2" "n div 2 < 2 ^ Suc k" by blast
    then have "2 ^ Suc k \<le> n \<and> n < 2 ^ Suc (Suc k)" by auto
    then show ?thesis by blast
  qed
qed

lemma round_even_int: "round_even (of_int m) = m"
  by (simp add: round_even_def)

text \<open>A natural number below \<open>2 ^ 24\<close> is a \<open>double\<close>.\<close>

lemma double_round_nat:
  assumes "n < 2 ^ 24"
  shows "double_round (real n) = real n"
proof (cases "n = 0")
  case True
  then show ?thesis by (simp add: double_round_0)
next
  case False
  then obtain k where k: "2 ^ k \<le> n" "n < 2 ^ Suc k" using power_bounds [of n] by auto
  have k24: "k < 24"
  proof (rule power_less_imp_less_exp)
    show "(1::nat) < 2" by simp
    show "(2::nat) ^ k < 2 ^ 24" using k(1) assms by linarith
  qed
  have "real (2 ^ k) \<le> real n" using k(1) by (simp only: of_nat_le_iff)
  then have lo: "2 powi (int k) \<le> real n" by simp
  have "real n < real (2 ^ Suc k)" using k(2) by (simp only: of_nat_less_iff)
  then have hi: "real n < 2 powi (int k + 1)" by (simp add: power_int_add)
  have sc: "(2::real) powi (int k - 23) = 1 / 2 ^ (23 - k)"
    using k24 by (simp add: power_int_def nat_diff_distrib field_simps)
  have "real n / 2 powi (int k - 23) = of_int (int (n * 2 ^ (23 - k)))"
    by (simp add: sc)
  then have "round_even (real n / 2 powi (int k - 23)) = int (n * 2 ^ (23 - k))"
    by (simp only: round_even_int)
  then have "double_round (real n) = of_int (int (n * 2 ^ (23 - k))) * 2 powi (int k - 23)"
    using double_round_eval [OF lo hi] by simp
  then show ?thesis by (simp add: sc)
qed

lemma uint32_to_double_exact: "unat c < 2 ^ 24 \<Longrightarrow> uint32_to_double c = real (unat c)"
  unfolding uint32_to_double_def by (rule double_round_nat)

subsection \<open>Resolving a count into a frequency\<close>

text \<open>
  The \<open>double\<close> nearest to 0.016384, six times it rounded, and the quotient of 1.0 by
  that, rounded: the scale factor as initialised, 10.172525405883789.
\<close>

lemma GATE_SEG_DUR_value: "GATE_SEG_DUR = 8796093 / 536870912"
  unfolding GATE_SEG_DUR_def
  by (subst double_round_eval [where e = "- 6"]) (simp_all add: round_even_def power_int_minus)

lemma GATE_DUR_value: "GATE_DUR = 3298535 / 33554432"
  unfolding GATE_DUR_def GATE_SEG_DUR_value
  by (subst double_round_eval [where e = "- 4"])
    (simp_all add: round_even_def power_int_minus SEGS_PER_GATE_def)

lemma scaleFactor_init: "scaleFactor (world_init stored) = 5333333 / 524288"
  unfolding world_init_def GATE_DUR_value
  by (simp, subst double_round_eval [where e = 3])
    (simp_all add: round_even_def power_int_minus)

lemma count_500000: "uint32_to_double 500000 = 500000"
  unfolding uint32_to_double_def
  by (simp, subst double_round_eval [where e = 18])
    (simp_all add: round_even_def power_int_minus)

lemma count_400000: "uint32_to_double 400000 = 400000"
  unfolding uint32_to_double_def
  by (simp, subst double_round_eval [where e = 18])
    (simp_all add: round_even_def power_int_minus)

lemma count_516096: "uint32_to_double 516096 = 516096"
  unfolding uint32_to_double_def
  by (simp, subst double_round_eval [where e = 18])
    (simp_all add: round_even_def power_int_minus)

lemma count_0: "uint32_to_double 0 = 0"
  by (simp add: uint32_to_double_def double_round_0)

lemma product_500000:
  "double_round (uint32_to_double 500000 * scaleFactor (world_init stored)) = 10172525 / 2"
  unfolding count_500000 scaleFactor_init
  by (subst double_round_eval [where e = 22]) (simp_all add: round_even_def power_int_minus)

lemma product_400000:
  "double_round (uint32_to_double 400000 * scaleFactor (world_init stored)) = 16276041 / 4"
  unfolding count_400000 scaleFactor_init
  by (subst double_round_eval [where e = 21]) (simp_all add: round_even_def power_int_minus)

lemma product_516096:
  "double_round (uint32_to_double 516096 * scaleFactor (world_init stored)) = 10499999 / 2"
  unfolding count_516096 scaleFactor_init
  by (subst double_round_eval [where e = 22]) (simp_all add: round_even_def power_int_minus)

lemma product_0: "double_round (uint32_to_double 0 * sf) = 0"
  by (simp add: count_0 double_round_0)

subsection \<open>The calibration loops\<close>

lemma toggleLockLed_fields [simp]:
  "gate (toggleLockLed w) = gate w"
  "scaleFactor (toggleLockLed w) = scaleFactor w"
  "fDDS (toggleLockLed w) = fDDS w"
  "trackMode (toggleLockLed w) = trackMode w"
  "lockMode (toggleLockLed w) = lockMode w"
  "oldLockBtnPressed (toggleLockLed w) = oldLockBtnPressed w"
  "eeprom (toggleLockLed w) = eeprom w"
  "serial (toggleLockLed w) = serial w"
  by (simp_all add: toggleLockLed_def)

lemma toggles_fields [simp]:
  "gate ((toggleLockLed ^^ n) w) = gate w"
  "scaleFactor ((toggleLockLed ^^ n) w) = scaleFactor w"
  "fDDS ((toggleLockLed ^^ n) w) = fDDS w"
  "trackMode ((toggleLockLed ^^ n) w) = trackMode w"
  "lockMode ((toggleLockLed ^^ n) w) = lockMode w"
  "oldLockBtnPressed ((toggleLockLed ^^ n) w) = oldLockBtnPressed w"
  "eeprom ((toggleLockLed ^^ n) w) = eeprom w"
  "serial ((toggleLockLed ^^ n) w) = serial w"
  by (induction n; simp)+

lemma toggleLockLed_gate: "toggleLockLed (w\<lparr>gate := g\<rparr>) = (toggleLockLed w)\<lparr>gate := g\<rparr>"
  by (simp add: toggleLockLed_def digitalWrite_def)

lemma toggleLockLed_serial: "toggleLockLed (w\<lparr>serial := x\<rparr>) = (toggleLockLed w)\<lparr>serial := x\<rparr>"
  by (simp add: toggleLockLed_def digitalWrite_def)

lemma toggles_gate: "(toggleLockLed ^^ n) (w\<lparr>gate := g\<rparr>) = ((toggleLockLed ^^ n) w)\<lparr>gate := g\<rparr>"
  by (induction n) (simp_all add: toggleLockLed_gate)

lemma toggles_serial:
  "(toggleLockLed ^^ n) (w\<lparr>serial := x\<rparr>) = ((toggleLockLed ^^ n) w)\<lparr>serial := x\<rparr>"
  by (induction n) (simp_all add: toggleLockLed_serial)

lemma accum_loop_eq:
  "accum_loop n acc w evs =
     (case gated_counts n (gate w) evs of
        None \<Rightarrow> None
      | Some (cs, g, rest) \<Rightarrow>
          Some (acc + sum_list cs, ((toggleLockLed ^^ n) w)\<lparr>gate := g\<rparr>, rest))"
proof (induction n arbitrary: acc w evs)
  case 0
  show ?case by simp
next
  case (Suc n)
  show ?case
  proof (cases "getGatedCount (gate w) evs")
    case None
    then show ?thesis by (simp add: Let_def)
  next
    case (Some r)
    obtain c g rest where r: "r = (c, g, rest)" by (cases r) auto
    have t: "(toggleLockLed ^^ n) ((toggleLockLed w)\<lparr>gate := g\<rparr>)
        = ((toggleLockLed ^^ Suc n) w)\<lparr>gate := g\<rparr>"
      by (simp add: toggles_gate funpow_swap1)
    show ?thesis using Some r
      by (simp add: Let_def Suc.IH t add.assoc del: funpow.simps split: option.splits)
  qed
qed

lemma getGatedCount_bound:
  "getGatedCount g evs = Some (c, g', rest) \<Longrightarrow> unat c < 2 ^ 24"
proof -
  assume "getGatedCount g evs = Some (c, g', rest)"
  then have "c = push_bit 16 (ucast (vCtr1OvrFlowsCopy g')) + ucast (vCtr1Copy g')"
    by (auto simp: getGatedCount_def Let_def add_copy_def load_ovf_def split: option.splits)
  then have "unat c = unat (vCtr1OvrFlowsCopy g') * 65536 + unat (vCtr1Copy g')"
    by (simp only: unat_combine)
  moreover have "unat (vCtr1OvrFlowsCopy g') < 256"
    using unsigned_less [of "vCtr1OvrFlowsCopy g'"] by simp
  moreover have "unat (vCtr1Copy g') < 65536"
    using unsigned_less [of "vCtr1Copy g'"] by simp
  ultimately show ?thesis by simp
qed

lemma gated_counts_bound:
  "gated_counts n g evs = Some (cs, g', rest) \<Longrightarrow>
     length cs = n \<and> (\<forall>c \<in> set cs. unat c < 2 ^ 24)"
proof (induction n arbitrary: g evs cs)
  case 0
  then show ?case by simp
next
  case (Suc n)
  from Suc.prems obtain c g1 r1 cs1 where
    a: "getGatedCount g evs = Some (c, g1, r1)"
    and b: "gated_counts n g1 r1 = Some (cs1, g', rest)"
    and c: "cs = c # cs1"
    by (auto split: option.splits)
  from Suc.IH [OF b] getGatedCount_bound [OF a] c show ?case by simp
qed

lemma unat_sum_list_le:
  "\<forall>c \<in> set cs. unat c < 2 ^ 24 \<Longrightarrow> sum_list (map unat cs) \<le> length cs * (2 ^ 24 - 1)"
  for cs :: "32 word list"
proof (induction cs)
  case Nil
  show ?case by simp
next
  case (Cons c cs)
  then have "sum_list (map unat cs) \<le> length cs * (2 ^ 24 - 1)" and "unat c \<le> 2 ^ 24 - 1"
    by simp_all
  then show ?case by simp
qed

lemma real_sum_list: "real (sum_list ns) = sum_list (map real ns)"
  by (induction ns) simp_all

lemma unat_sum_list:
  "\<forall>c \<in> set cs. unat c < 2 ^ 24 \<Longrightarrow> length cs \<le> 256 \<Longrightarrow>
     unat (sum_list cs) = sum_list (map unat cs)"
  for cs :: "32 word list"
proof (induction cs)
  case Nil
  show ?case by simp
next
  case (Cons c cs)
  have ih: "unat (sum_list cs) = sum_list (map unat cs)" using Cons by simp
  have "sum_list (map unat (c # cs)) \<le> length (c # cs) * (2 ^ 24 - 1)"
    by (rule unat_sum_list_le) (use Cons.prems in simp)
  also have "\<dots> \<le> 256 * (2 ^ 24 - 1)" using Cons.prems(2) by (intro mult_le_mono1)
  finally have "unat c + unat (sum_list cs) < 2 ^ 32" using ih by simp
  then have "unat (c + sum_list cs) = unat c + unat (sum_list cs)"
    by (simp add: unat_add_lem [THEN iffD1])
  then show ?case using ih by simp
qed

lemma fAv_measured:
  assumes "gated_counts NUM_ACCUM_LOOPS g evs = Some (b, g', rest)"
  shows "(real (unat (sum_list b)) * sf) / real NUM_ACCUM_LOOPS = measured sf b"
proof -
  from gated_counts_bound [OF assms] have l: "length b = NUM_ACCUM_LOOPS"
    and bd: "\<forall>c \<in> set b. unat c < 2 ^ 24" by simp_all
  have "unat (sum_list b) = sum_list (map unat b)"
    by (rule unat_sum_list [OF bd]) (simp add: l NUM_ACCUM_LOOPS_def)
  then have "real (unat (sum_list b)) = sum_list (map (\<lambda>c. real (unat c)) b)"
    by (simp only: real_sum_list map_map comp_def)
  then show ?thesis by (simp add: measured_def l)
qed

lemma calib_pass_eq:
  assumes "gated_counts NUM_ACCUM_LOOPS g evs = Some (b, g', rest)"
  shows "calib_pass (sum_list b) w
      = (pass_ratio (scaleFactor w) b,
         w\<lparr>serial := serial w @ pass_report (fDDS w) (scaleFactor w) b\<rparr>)"
  unfolding calib_pass_def Let_def fAv_measured [OF assms]
  by (simp add: pass_ratio_def pass_report_def Serial_print_def Serial_println_def)

lemma calib_loop_eq:
  "calib_loop j r0 w evs =
     (case gated_blocks j (gate w) evs of
        None \<Rightarrow> None
      | Some (bs, g, rest) \<Rightarrow>
          Some (last_ratio r0 (scaleFactor w) bs,
                ((toggleLockLed ^^ (NUM_ACCUM_LOOPS * j)) w)
                  \<lparr>gate := g,
                   serial := serial w @ concat (map (pass_report (fDDS w) (scaleFactor w)) bs)\<rparr>,
                rest))"
proof (induction j arbitrary: r0 w evs)
  case 0
  show ?case by (simp add: last_ratio_def)
next
  case (Suc j)
  show ?case
  proof (cases "gated_counts NUM_ACCUM_LOOPS (gate w) evs")
    case None
    then show ?thesis by (simp add: accum_loop_eq)
  next
    case (Some r)
    obtain b g1 r1 where r: "r = (b, g1, r1)" by (cases r) auto
    let ?w1 = "((toggleLockLed ^^ NUM_ACCUM_LOOPS) w)\<lparr>gate := g1\<rparr>"
    let ?w2 = "?w1\<lparr>serial := serial ?w1 @ pass_report (fDDS ?w1) (scaleFactor ?w1) b\<rparr>"
    have acc: "accum_loop NUM_ACCUM_LOOPS 0 w evs = Some (sum_list b, ?w1, r1)"
      using Some r by (simp add: accum_loop_eq)
    have pass: "calib_pass (sum_list b) ?w1 = (pass_ratio (scaleFactor w) b, ?w2)"
      using calib_pass_eq [of "gate w" evs b g1 r1 ?w1] Some r by simp
    have step: "calib_loop (Suc j) r0 w evs = calib_loop j (pass_ratio (scaleFactor w) b) ?w2 r1"
      by (simp add: acc pass)
    show ?thesis
    proof (cases "gated_blocks j g1 r1")
      case None
      then show ?thesis unfolding step using Some r by (simp add: Suc.IH)
    next
      case (Some q)
      obtain bs g2 r2 where q: "q = (bs, g2, r2)" by (cases q) auto
      have lr: "last_ratio (pass_ratio (scaleFactor w) b) (scaleFactor w) bs
          = last_ratio r0 (scaleFactor w) (b # bs)"
        by (simp add: last_ratio_def)
      have "NUM_ACCUM_LOOPS * Suc j = NUM_ACCUM_LOOPS * j + NUM_ACCUM_LOOPS" by simp
      then have fp: "(toggleLockLed ^^ (NUM_ACCUM_LOOPS * Suc j)) w
          = (toggleLockLed ^^ (NUM_ACCUM_LOOPS * j)) ((toggleLockLed ^^ NUM_ACCUM_LOOPS) w)"
        by (simp only: funpow_add o_apply)
      show ?thesis unfolding step
        using \<open>gated_counts NUM_ACCUM_LOOPS (gate w) evs = Some r\<close> r Some q
        by (simp add: Suc.IH lr toggles_gate toggles_serial fp [symmetric]
            del: funpow.simps mult_Suc_right)
    qed
  qed
qed

lemma ddsSetFreq_fields [simp]:
  "gate (ddsSetFreq f w) = gate w"
  "scaleFactor (ddsSetFreq f w) = scaleFactor w"
  "fDDS (ddsSetFreq f w) = fDDS w"
  "trackMode (ddsSetFreq f w) = trackMode w"
  "lockMode (ddsSetFreq f w) = lockMode w"
  "oldLockBtnPressed (ddsSetFreq f w) = oldLockBtnPressed w"
  "eeprom (ddsSetFreq f w) = eeprom w"
  by (simp_all add: ddsSetFreq_def Let_def)

lemma F_MID_value: "F_MID = 5250000"
  by (simp add: F_MID_def F_MIN_def F_MAX_def)

lemma F_MID_in_band: "F_MIN < uint (word_of_int F_MID :: 32 word) \<and> uint (word_of_int F_MID :: 32 word) < F_MAX"
  by (simp add: F_MID_value F_MIN_def F_MAX_def)






lemma doCalib_eq:
  "doCalib w evs =
     (case gated_blocks 8 (gate w) evs of
        None \<Rightarrow> None
      | Some (bs, g, rest) \<Rightarrow>
          Some (calib_store (last_ratio (Some 1.0) (scaleFactor w) bs)
                 (((toggleLockLed ^^ (NUM_ACCUM_LOOPS * 8))
                     (ddsSetFreq (word_of_int F_MID) (Serial_println (Str ''Calibrating...'') w)))
                   \<lparr>gate := g,
                    serial := serial w @ [Str ''Calibrating...'', Newline]
                      @ concat (map (pass_report (fDDS w) (scaleFactor w)) bs)\<rparr>),
                rest))"
proof -
  have s: "serial (ddsSetFreq (word_of_int F_MID) (Serial_println (Str ''Calibrating...'') w))
      = serial w @ [Str ''Calibrating...'', Newline]"
    using F_MID_in_band by (simp add: ddsSetFreq_in(2))
  show ?thesis
    by (simp add: doCalib_def Let_def calib_loop_eq s split: option.splits)
qed


lemma calib_store_fields [simp]:
  "gate (calib_store r w) = gate w"
  "scaleFactor (calib_store r w) = scaleFactor w"
  "fDDS (calib_store r w) = fDDS w"
  "trackMode (calib_store r w) = trackMode w"
  "oldLockBtnPressed (calib_store r w) = oldLockBtnPressed w"
  "eeprom (calib_store r w) = (if calRatio_ok r then r else eeprom w)"
  "lockMode (calib_store r w) = (if calRatio_ok r then True else lockMode w)"
  "pinLevel (calib_store r w) pinLockLed = (if calRatio_ok r then True else pinLevel w pinLockLed)"
  by (simp_all add: calib_store_def Let_def)


subsection \<open>Calibration against a steady signal\<close>

lemma count_word:
  assumes "m < 2 ^ 24"
  shows "push_bit 16 (ucast (of_nat (m div 65536) :: 8 word) :: 32 word)
           + ucast (of_nat m :: 16 word) = of_nat m"
proof -
  have a: "unat (of_nat (m div 65536) :: 8 word) = m div 65536"
    using assms by (simp add: unat_of_nat take_bit_nat_eq_self_iff)
  have b: "unat (of_nat m :: 16 word) = m mod 65536"
    by (simp add: unat_of_nat take_bit_eq_mod)
  have "unat (push_bit 16 (ucast (of_nat (m div 65536) :: 8 word) :: 32 word)
           + ucast (of_nat m :: 16 word)) = m"
    by (simp only: unat_combine a b) simp
  moreover have "unat (of_nat m :: 32 word) = m"
    using assms by (simp add: unat_of_nat take_bit_nat_eq_self_iff)
  ultimately show ?thesis by (intro word_unat_eq_iff [THEN iffD2]) simp
qed

lemma getGatedCount_burst:
  assumes "vGateSegCountdown g = SEGS_PER_GATE" "TCNT1 g = 0" "vCtr1OvrFlows g = 0"
    and m: "m < 2 ^ 24"
  shows "\<exists>g'. getGatedCount g (gate_burst m @ rest) = Some (of_nat m, g', rest)
      \<and> vGateSegCountdown g' = SEGS_PER_GATE \<and> TCNT1 g' = 0 \<and> vCtr1OvrFlows g' = 0"
proof -
  have b: "gate_burst m = [Edges m, T2Overflow, T2Overflow, T2Overflow, T2Overflow, T2Overflow,
      T2Overflow]"
    by (simp add: gate_burst_def eval_nat_numeral)
  show ?thesis using assms(1-3) count_word [OF m]
    by (simp add: b getGatedCount_def edges_closed TIMER2_OVF_vect_def Let_def gate_wait_done
        rearm_def load_ovf_def add_copy_def SEGS_PER_GATE_def word_sless_alt)
qed





lemma world_init_fresh:
  "vGateSegCountdown (gate (world_init x)) = SEGS_PER_GATE"
  "TCNT1 (gate (world_init x)) = 0"
  "vCtr1OvrFlows (gate (world_init x)) = 0"
  by (simp_all add: world_init_def gate_init_def)







subsection \<open>Reading the stored calibration\<close>

lemma getStoredCalib_fields [simp]:
  "gate (getStoredCalib w) = gate w"
  "fDDS (getStoredCalib w) = fDDS w"
  "trackMode (getStoredCalib w) = trackMode w"
  "lockMode (getStoredCalib w) = lockMode w"
  "oldLockBtnPressed (getStoredCalib w) = oldLockBtnPressed w"
  "eeprom (getStoredCalib w) = eeprom w"
  "pinWrites (getStoredCalib w) = pinWrites w"
  "pinLevel (getStoredCalib w) = pinLevel w"
  by (simp_all add: getStoredCalib_def Let_def split: option.splits)






subsection \<open>One pass through \<open>loop\<close>\<close>

lemma ddsTraffic_digitalWrite:
  "ddsTraffic (digitalWrite p v w) = ddsTraffic w @ (if is_dds_pin p then [(p, v)] else [])"
  by (simp add: ddsTraffic_def)

lemma ddsTraffic_updates [simp]:
  "ddsTraffic (w\<lparr>gate := g\<rparr>) = ddsTraffic w"
  "ddsTraffic (w\<lparr>fDDS := f\<rparr>) = ddsTraffic w"
  "ddsTraffic (w\<lparr>trackMode := b\<rparr>) = ddsTraffic w"
  "ddsTraffic (w\<lparr>lockMode := b\<rparr>) = ddsTraffic w"
  "ddsTraffic (w\<lparr>oldLockBtnPressed := b\<rparr>) = ddsTraffic w"
  "ddsTraffic (w\<lparr>serial := s\<rparr>) = ddsTraffic w"
  by (simp_all add: ddsTraffic_def)

lemma ddsTraffic_ddsSetFreq: "ddsTraffic (ddsSetFreq f w) = ddsTraffic w @ command f"
proof (cases "in_band f")
  case True
  then have "pinWrites (ddsSetFreq f w) = pinWrites w @ dds_frame (tuning_word f)"
    unfolding in_band_def tuning_word_def by (intro ddsSetFreq_in(1)) simp_all
  from ddsTraffic_append_frame [OF this] True show ?thesis by (simp add: command_def)
next
  case False
  then have "ddsSetFreq f w = w\<lparr>serial := serial w @ [Str ''----- Warning, fDDS = '', ULong f,
           Str '', out of range for Yaesu VFO.  Not setting -----'', Newline]\<rparr>"
    unfolding in_band_def by (rule ddsSetFreq_out)
  then show ?thesis using False by (simp add: command_def)
qed

lemma CheckCtrlPins_fields:
  "gate (CheckCtrlPins d a w) = gate w"
  "scaleFactor (CheckCtrlPins d a w) = scaleFactor w"
  "eeprom (CheckCtrlPins d a w) = eeprom w"
  "trackMode (CheckCtrlPins d a w) = (\<not> d)"
  "lockMode (CheckCtrlPins d a w)
     = (if a < BTN_LOCK_THRESH \<and> \<not> oldLockBtnPressed w then \<not> lockMode w else lockMode w)"
  "oldLockBtnPressed (CheckCtrlPins d a w)
     = (if a > NO_BUTS_THRESH then False
        else if a < BTN_LOCK_THRESH then True else oldLockBtnPressed w)"
  "fDDS (CheckCtrlPins d a w)
     = (if d \<and> nudge_reading a
        then (if a < BTN_UP_THRESH then fDDS w + 5 else fDDS w - 5) else fDDS w)"
  "ddsTraffic (CheckCtrlPins d a w)
     = ddsTraffic w @ (if d \<and> nudge_reading a
        then command (if a < BTN_UP_THRESH then fDDS w + 5 else fDDS w - 5) else [])"
  by (auto simp: CheckCtrlPins_def Let_def nudge_reading_def NO_BUTS_THRESH_def
      BTN_LOCK_THRESH_def ddsTraffic_ddsSetFreq ddsTraffic_digitalWrite is_dds_pin_def)

lemma loop_fields:
  assumes "loop d a w evs = Some (w', rest)"
  shows "\<exists>c. getGatedCount (gate w) evs = Some (c, gate w', rest)
    \<and> scaleFactor w' = scaleFactor w \<and> eeprom w' = eeprom w
    \<and> trackMode w' = (\<not> d)
    \<and> lockMode w'
        = (if a < BTN_LOCK_THRESH \<and> \<not> oldLockBtnPressed w then \<not> lockMode w else lockMode w)
    \<and> oldLockBtnPressed w'
        = (if a > NO_BUTS_THRESH then False
           else if a < BTN_LOCK_THRESH then True else oldLockBtnPressed w)
    \<and> fDDS w'
        = (if \<not> d \<and> \<not> lockMode w' then double_to_uint32 (double_round (uint32_to_double c * scaleFactor w))
           else if d \<and> nudge_reading a
           then (if a < BTN_UP_THRESH then fDDS w + 5 else fDDS w - 5)
           else fDDS w)
    \<and> ddsTraffic w'
        = ddsTraffic w @ (if (\<not> d \<and> \<not> lockMode w') \<or> (d \<and> nudge_reading a)
                          then command (fDDS w') else [])"
proof -
  let ?w1 = "digitalWrite LED_BUILTIN (\<not> pinLevel w LED_BUILTIN) w"
  from assms obtain c g where
    g: "getGatedCount (gate w) evs = Some (c, g, rest)"
    and w': "w' = (let w2 = CheckCtrlPins d a (?w1\<lparr>gate := g\<rparr>) in
           if trackMode w2 \<and> \<not> lockMode w2 then
             (let w3 = w2\<lparr>fDDS := double_to_uint32
                        (double_round (uint32_to_double c * scaleFactor w2))\<rparr>
              in ddsSetFreq (fDDS w3) w3)
           else w2)"
    by (auto simp: loop_def Let_def split: option.splits if_splits)
  have t: "ddsTraffic ?w1 = ddsTraffic w"
    by (simp add: ddsTraffic_digitalWrite is_dds_pin_def)
  show ?thesis
    using g t unfolding w' Let_def
    by (auto simp: CheckCtrlPins_fields ddsTraffic_ddsSetFreq)
qed

lemma loop_returns:
  "getGatedCount (gate w) evs = Some (c, g, rest) \<Longrightarrow> \<exists>w'. loop d a w evs = Some (w', rest)"
  by (simp add: loop_def Let_def)

lemma loop_burst:
  assumes "vGateSegCountdown (gate w) = SEGS_PER_GATE" "TCNT1 (gate w) = 0"
    "vCtr1OvrFlows (gate w) = 0" and m: "m < 2 ^ 24"
  shows "\<exists>w'. loop d a w (gate_burst m @ rest) = Some (w', rest)
      \<and> getGatedCount (gate w) (gate_burst m @ rest) = Some (of_nat m, gate w', rest)
      \<and> vGateSegCountdown (gate w') = SEGS_PER_GATE \<and> TCNT1 (gate w') = 0
      \<and> vCtr1OvrFlows (gate w') = 0"
proof -
  from getGatedCount_burst [OF assms, of rest] obtain g' where
    g: "getGatedCount (gate w) (gate_burst m @ rest) = Some (of_nat m, g', rest)"
    and f: "vGateSegCountdown g' = SEGS_PER_GATE" "TCNT1 g' = 0" "vCtr1OvrFlows g' = 0"
    by blast
  from loop_returns [OF g] obtain w' where l: "loop d a w (gate_burst m @ rest) = Some (w', rest)"
    by blast
  from loop_fields [OF l] g have "gate w' = g'" by auto
  with g f l show ?thesis by auto
qed

lemma unat_plus5: "unat f < 2 ^ 32 - 5 \<Longrightarrow> unat (f + 5) = unat f + 5" for f :: "32 word"
  by (simp add: unat_word_ariths)

lemma unat_minus5: "5 \<le> unat f \<Longrightarrow> unat (f - 5) = unat f - 5" for f :: "32 word"
  by (simp add: unat_sub_if' word_le_nat_alt)

lemma run_cycles_locked:
  "run_cycles ins w evs = Some (w', rest) \<Longrightarrow> lockMode w \<Longrightarrow>
     \<forall>(d, a) \<in> set ins. \<not> d \<and> BTN_LOCK_THRESH \<le> a \<Longrightarrow>
     fDDS w' = fDDS w \<and> lockMode w' \<and> ddsTraffic w' = ddsTraffic w"
proof (induction ins arbitrary: w evs)
  case Nil
  then show ?case by simp
next
  case (Cons i ins)
  obtain d a where i: "i = (d, a)" by (cases i)
  from Cons.prems(1) i obtain w1 r1 where
    l: "loop d a w evs = Some (w1, r1)" and r: "run_cycles ins w1 r1 = Some (w', rest)"
    by (auto split: option.splits)
  from Cons.prems(3) i have d: "\<not> d" "BTN_LOCK_THRESH \<le> a" by simp_all
  from loop_fields [OF l] d Cons.prems(2)
  have s: "lockMode w1" "fDDS w1 = fDDS w" "ddsTraffic w1 = ddsTraffic w" by auto
  from Cons.IH [OF r s(1)] Cons.prems(3) s show ?case by simp
qed

lemma loop_lock:
  assumes "loop d a w evs = Some (w', rest)"
  shows "lockMode w'
        = (if a < BTN_LOCK_THRESH \<and> \<not> oldLockBtnPressed w then \<not> lockMode w else lockMode w)"
    and "oldLockBtnPressed w'
        = (if a > NO_BUTS_THRESH then False
           else if a < BTN_LOCK_THRESH then True else oldLockBtnPressed w)"
  using loop_fields [OF assms] by blast+

lemma loop_fDDS:
  assumes "loop d a w evs = Some (w', rest)"
  shows "\<exists>c :: 32 word. fDDS w'
        = (if \<not> d \<and> \<not> lockMode w' then double_to_uint32 (double_round (uint32_to_double c * scaleFactor w))
           else if d \<and> nudge_reading a
           then (if a < BTN_UP_THRESH then fDDS w + 5 else fDDS w - 5)
           else fDDS w)"
  using loop_fields [OF assms] by blast

lemma run_cycles_latched:
  "run_cycles ins w evs = Some (w', rest) \<Longrightarrow> oldLockBtnPressed w \<Longrightarrow>
     \<forall>(d, a) \<in> set ins. a \<le> NO_BUTS_THRESH \<Longrightarrow>
     lockMode w' = lockMode w \<and> oldLockBtnPressed w'"
proof (induction ins arbitrary: w evs)
  case Nil
  then show ?case by simp
next
  case (Cons i ins)
  obtain d a where i: "i = (d, a)" by (cases i)
  from Cons.prems(1) i obtain w1 r1 where
    l: "loop d a w evs = Some (w1, r1)" and r: "run_cycles ins w1 r1 = Some (w', rest)"
    by (auto split: option.splits)
  from Cons.prems(3) i have a: "a \<le> NO_BUTS_THRESH" by simp
  from loop_lock [OF l] a Cons.prems(2)
  have s: "lockMode w1 = lockMode w" "oldLockBtnPressed w1" by simp_all
  from Cons.IH [OF r s(2)] Cons.prems(3) s show ?case by simp
qed

lemma run_cycles_lock_held:
  assumes "run_cycles ((d, a) # ins) w evs = Some (w', rest)" "a < BTN_LOCK_THRESH"
    "\<forall>(d', a') \<in> set ins. a' < BTN_LOCK_THRESH"
  shows "lockMode w' = (if oldLockBtnPressed w then lockMode w else \<not> lockMode w)"
proof -
  from assms(1) obtain w1 r1 where
    l: "loop d a w evs = Some (w1, r1)" and r: "run_cycles ins w1 r1 = Some (w', rest)"
    by (auto split: option.splits)
  from loop_lock [OF l] assms(2)
  have s: "lockMode w1 = (if oldLockBtnPressed w then lockMode w else \<not> lockMode w)"
    "oldLockBtnPressed w1"
    by (simp_all add: BTN_LOCK_THRESH_def NO_BUTS_THRESH_def)
  have "\<forall>(d', a') \<in> set ins. a' \<le> NO_BUTS_THRESH"
    using assms(3) by (auto simp: BTN_LOCK_THRESH_def NO_BUTS_THRESH_def)
  from run_cycles_latched [OF r s(2) this] s(1) show ?thesis by simp
qed

lemma loop_nudge_hold:
  assumes "loop True a w evs = Some (w', rest)" "nudge_reading a"
  shows "fDDS w' = (if a < BTN_UP_THRESH then fDDS w + 5 else fDDS w - 5)"
  using loop_fDDS [OF assms(1)] assms(2) by auto

lemma run_cycles_nudge_held:
  "run_cycles (replicate n (True, a)) w evs = Some (w', rest) \<Longrightarrow> nudge_reading a \<Longrightarrow>
     fDDS w' = (if a < BTN_UP_THRESH then fDDS w + 5 * of_nat n else fDDS w - 5 * of_nat n)"
proof (induction n arbitrary: w evs)
  case 0
  then show ?case by simp
next
  case (Suc n)
  from Suc.prems(1) obtain w1 r1 where
    l: "loop True a w evs = Some (w1, r1)"
    and r: "run_cycles (replicate n (True, a)) w1 r1 = Some (w', rest)"
    by (auto split: option.splits)
  from Suc.IH [OF r Suc.prems(2)] loop_nudge_hold [OF l Suc.prems(2)]
  show ?case by (simp add: algebra_simps)
qed

lemma loop_nudge_tracking_locked:
  assumes "loop False a w evs = Some (w', rest)" "nudge_reading a" "lockMode w"
  shows "fDDS w' = fDDS w"
proof -
  have "\<not> a < BTN_LOCK_THRESH" using assms(2) by (simp add: nudge_reading_def)
  then have "lockMode w'" using loop_lock(1) [OF assms(1)] assms(3) by simp
  then show ?thesis using loop_fDDS [OF assms(1)] by auto
qed

lemma run_cycles_bursts:
  assumes "vGateSegCountdown (gate w) = SEGS_PER_GATE" "TCNT1 (gate w) = 0"
    "vCtr1OvrFlows (gate w) = 0" and m: "m < 2 ^ 24"
  shows "\<exists>w'. run_cycles ins w (concat (replicate (length ins) (gate_burst m)) @ rest)
      = Some (w', rest)"
  using assms(1-3)
proof (induction ins arbitrary: w)
  case Nil
  show ?case by simp
next
  case (Cons i ins)
  obtain d a where i: "i = (d, a)" by (cases i)
  from loop_burst [OF Cons.prems m, of d a "concat (replicate (length ins) (gate_burst m)) @ rest"]
  obtain w1 where
    l: "loop d a w (gate_burst m @ concat (replicate (length ins) (gate_burst m)) @ rest)
        = Some (w1, concat (replicate (length ins) (gate_burst m)) @ rest)"
    and f: "vGateSegCountdown (gate w1) = SEGS_PER_GATE" "TCNT1 (gate w1) = 0"
      "vCtr1OvrFlows (gate w1) = 0"
    by blast
  from Cons.IH [OF f] obtain w' where
    "run_cycles ins w1 (concat (replicate (length ins) (gate_burst m)) @ rest) = Some (w', rest)"
    by blast
  then show ?case using l i by simp
qed

lemma loop_tracking_burst:
  assumes "vGateSegCountdown (gate w) = SEGS_PER_GATE" "TCNT1 (gate w) = 0"
    "vCtr1OvrFlows (gate w) = 0" and m: "m < 2 ^ 24"
    and a: "BTN_LOCK_THRESH \<le> a" and k: "\<not> lockMode w"
  shows "\<exists>w'. loop False a w (gate_burst m @ rest) = Some (w', rest)
      \<and> getGatedCount (gate w) (gate_burst m @ rest) = Some (of_nat m, gate w', rest)
      \<and> vGateSegCountdown (gate w') = SEGS_PER_GATE \<and> TCNT1 (gate w') = 0
      \<and> vCtr1OvrFlows (gate w') = 0
      \<and> trackMode w' \<and> \<not> lockMode w'
      \<and> fDDS w' = double_to_uint32 (double_round (uint32_to_double (of_nat m) * scaleFactor w))
      \<and> ddsTraffic w' = ddsTraffic w @ command (fDDS w')"
proof -
  from loop_burst [OF assms(1-3) m, of False a rest] obtain w' where
    l: "loop False a w (gate_burst m @ rest) = Some (w', rest)"
    and g: "getGatedCount (gate w) (gate_burst m @ rest) = Some (of_nat m, gate w', rest)"
    and f: "vGateSegCountdown (gate w') = SEGS_PER_GATE" "TCNT1 (gate w') = 0"
      "vCtr1OvrFlows (gate w') = 0"
    by blast
  from loop_fields [OF l] g a k have
    "trackMode w'" "\<not> lockMode w'"
    "fDDS w' = double_to_uint32 (double_round (uint32_to_double (of_nat m) * scaleFactor w))"
    "ddsTraffic w' = ddsTraffic w @ command (fDDS w')"
    by auto
  with l g f show ?thesis by blast
qed

lemma world_init_unlocked: "\<not> lockMode (world_init stored)"
  by (simp add: world_init_def)

lemma loop_400000:
  "\<exists>w'. loop False 1023 (world_init None) (gate_burst 400000) = Some (w', [])
     \<and> getGatedCount (gate (world_init None)) (gate_burst 400000) = Some (400000, gate w', [])
     \<and> trackMode w' \<and> \<not> lockMode w' \<and> fDDS w' = 4069010
     \<and> ddsTraffic w' = ddsTraffic (world_init None)"
proof -
  have m: "(400000 :: nat) < 2 ^ 24" by simp
  have a: "BTN_LOCK_THRESH \<le> 1023" by (simp add: BTN_LOCK_THRESH_def)
  from loop_tracking_burst [where w = "world_init None" and m = 400000 and rest = "[]"
      and a = 1023, OF world_init_fresh m a world_init_unlocked]
  obtain w' where l: "loop False 1023 (world_init None) (gate_burst 400000) = Some (w', [])"
    and g: "getGatedCount (gate (world_init None)) (gate_burst 400000)
        = Some (400000, gate w', [])"
    and t: "trackMode w'" "\<not> lockMode w'"
    and f: "fDDS w' = double_to_uint32
        (double_round (uint32_to_double 400000 * scaleFactor (world_init None)))"
    and d: "ddsTraffic w' = ddsTraffic (world_init None) @ command (fDDS w')"
    by auto
  have v: "fDDS w' = 4069010"
    unfolding f product_400000 by (simp add: double_to_uint32_def)
  have cmd: "command 4069010 = []"
    by (simp add: command_def in_band_def F_MIN_def)
  from l g t v d cmd show ?thesis by simp
qed

text \<open>
  Claim C8, as the code has it. \<open>loop\<close> resolves a count as \<open>gatedCount * scaleFactor\<close>.
  With the scale factor as initialised, \<open>1.0 / GATE_DUR\<close>, a count of 500000 gives the
  \<open>double\<close> 5086262.5, and \<open>fDDS\<close> receives 5086262. Neither comes within one part in a
  million of 5086848, and neither does the exact quotient \<open>500000 / 0.098304\<close>.
\<close>

theorem resolve_500000_counterexample:
  "loop False 1023 (world_init None) (gate_burst 500000) \<noteq> None
   \<and> map_option fst (getGatedCount (gate (world_init None)) (gate_burst 500000)) = Some 500000
   \<and> scaleFactor (world_init None) = double_round (1.0 / GATE_DUR)
   \<and> double_round (uint32_to_double 500000 * scaleFactor (world_init None)) = 5086262.5
   \<and> fDDS (fst (the (loop False 1023 (world_init None) (gate_burst 500000)))) = 5086262
   \<and> \<not> \<bar>double_round (uint32_to_double 500000 * scaleFactor (world_init None)) - 5086848\<bar>
        \<le> 1 / 1000000 * 5086848
   \<and> \<not> \<bar>real (unat (fDDS (fst (the (loop False 1023 (world_init None) (gate_burst 500000))))))
          - 5086848\<bar> \<le> 1 / 1000000 * 5086848
   \<and> \<not> \<bar>500000 / 0.098304 - 5086848\<bar> \<le> 1 / 1000000 * (5086848 :: real)"
proof -
  have m: "(500000 :: nat) < 2 ^ 24" by simp
  have a: "BTN_LOCK_THRESH \<le> 1023" by (simp add: BTN_LOCK_THRESH_def)
  from loop_tracking_burst [where w = "world_init None" and m = 500000 and rest = "[]"
      and a = 1023, OF world_init_fresh m a world_init_unlocked]
  obtain w' where l: "loop False 1023 (world_init None) (gate_burst 500000) = Some (w', [])"
    and g: "getGatedCount (gate (world_init None)) (gate_burst 500000)
        = Some (500000, gate w', [])"
    and f: "fDDS w' = double_to_uint32
        (double_round (uint32_to_double 500000 * scaleFactor (world_init None)))"
    by auto
  have v: "fDDS w' = 5086262"
    unfolding f product_500000 by (simp add: double_to_uint32_def)
  have s: "scaleFactor (world_init None) = double_round (1.0 / GATE_DUR)"
    by (simp add: world_init_def)
  have r: "double_round (uint32_to_double 500000 * scaleFactor (world_init None)) = 5086262.5"
    by (simp add: product_500000)
  have n1: "\<not> \<bar>double_round (uint32_to_double 500000 * scaleFactor (world_init None)) - 5086848\<bar>
        \<le> 1 / 1000000 * 5086848"
    unfolding r by simp
  have n2: "\<not> \<bar>500000 / 0.098304 - 5086848\<bar> \<le> 1 / 1000000 * (5086848 :: real)" by simp
  have "loop False 1023 (world_init None) (gate_burst 500000) \<noteq> None
   \<and> map_option fst (getGatedCount (gate (world_init None)) (gate_burst 500000)) = Some 500000
   \<and> fDDS (fst (the (loop False 1023 (world_init None) (gate_burst 500000)))) = 5086262
   \<and> \<not> \<bar>real (unat (fDDS (fst (the (loop False 1023 (world_init None) (gate_burst 500000))))))
          - 5086848\<bar> \<le> 1 / 1000000 * 5086848"
    using l g v by simp
  with s r n1 n2 show ?thesis by blast
qed

text \<open>
  Claim C8, amended. A tracking cycle with a count of 500000 at the scale factor as
  initialised resolves it to a \<open>double\<close> within one part in a million of 5086263 Hz (the
  \<open>double\<close> is 5086262.5, the exact quotient \<open>500000 / 0.098304\<close> is \<open>5086263 + 1/48\<close>),
  and the value \<open>fDDS\<close> receives, 5086262, is within the same tolerance.
\<close>

theorem resolve_500000:
  "\<exists>w'. loop False 1023 (world_init stored) (gate_burst 500000) = Some (w', [])
     \<and> getGatedCount (gate (world_init stored)) (gate_burst 500000)
         = Some (500000, gate w', [])
     \<and> scaleFactor (world_init stored) = double_round (1.0 / GATE_DUR)
     \<and> GATE_DUR = 3298535 / 33554432
     \<and> scaleFactor (world_init stored) = 5333333 / 524288
     \<and> fDDS w' = double_to_uint32
         (double_round (uint32_to_double 500000 * scaleFactor (world_init stored)))
     \<and> double_round (uint32_to_double 500000 * scaleFactor (world_init stored)) = 5086262.5
     \<and> \<bar>double_round (uint32_to_double 500000 * scaleFactor (world_init stored)) - 5086263\<bar>
          \<le> 1 / 1000000 * 5086263
     \<and> fDDS w' = 5086262
     \<and> \<bar>real (unat (fDDS w')) - 5086263\<bar> \<le> 1 / 1000000 * 5086263
     \<and> \<bar>500000 / 0.098304 - 5086263\<bar> \<le> 1 / 1000000 * (5086263 :: real)"
proof -
  have m: "(500000 :: nat) < 2 ^ 24" by simp
  have a: "BTN_LOCK_THRESH \<le> 1023" by (simp add: BTN_LOCK_THRESH_def)
  from loop_tracking_burst [where w = "world_init stored" and m = 500000 and rest = "[]"
      and a = 1023, OF world_init_fresh m a world_init_unlocked]
  obtain w' where l: "loop False 1023 (world_init stored) (gate_burst 500000) = Some (w', [])"
    and g: "getGatedCount (gate (world_init stored)) (gate_burst 500000)
        = Some (500000, gate w', [])"
    and f: "fDDS w' = double_to_uint32
        (double_round (uint32_to_double 500000 * scaleFactor (world_init stored)))"
    by auto
  have v: "fDDS w' = 5086262"
    unfolding f product_500000 by (simp add: double_to_uint32_def)
  have s: "scaleFactor (world_init stored) = double_round (1.0 / GATE_DUR)"
    by (simp add: world_init_def)
  have r: "double_round (uint32_to_double 500000 * scaleFactor (world_init stored)) = 5086262.5"
    by (simp add: product_500000)
  have n1: "\<bar>double_round (uint32_to_double 500000 * scaleFactor (world_init stored)) - 5086263\<bar>
        \<le> 1 / 1000000 * 5086263"
    unfolding r by simp
  have n2: "\<bar>real (unat (fDDS w')) - 5086263\<bar> \<le> 1 / 1000000 * 5086263"
    unfolding v by simp
  have n3: "\<bar>500000 / 0.098304 - 5086263\<bar> \<le> 1 / 1000000 * (5086263 :: real)" by simp
  from l g s GATE_DUR_value scaleFactor_init [of stored] f r n1 v n2 n3 show ?thesis by blast
qed

lemma nudge_excursion:
  assumes "fDDS w = 5549998"
  shows "in_band (fDDS w)
      \<and> fDDS (CheckCtrlPins True 300 w) = 5550003
      \<and> \<not> in_band (fDDS (CheckCtrlPins True 300 w))
      \<and> ddsTraffic (CheckCtrlPins True 300 w) = ddsTraffic w
      \<and> fDDS (CheckCtrlPins True 700 (CheckCtrlPins True 300 w)) = 5549998
      \<and> in_band (fDDS (CheckCtrlPins True 700 (CheckCtrlPins True 300 w)))
      \<and> ddsTraffic (CheckCtrlPins True 700 (CheckCtrlPins True 300 w))
          = ddsTraffic w @ dds_frame (tuning_word 5549998)"
proof -
  have n: "nudge_reading 300" "nudge_reading 700" "(300 :: int) < BTN_UP_THRESH"
    "\<not> (700 :: int) < BTN_UP_THRESH"
    by (simp_all add: nudge_reading_def BTN_LOCK_THRESH_def NO_BUTS_THRESH_def BTN_UP_THRESH_def)
  have b: "in_band 5549998" "\<not> in_band 5550003"
    by (simp_all add: in_band_def F_MIN_def F_MAX_def)
  show ?thesis using assms n b
    by (simp add: CheckCtrlPins_fields command_def)
qed

lemma no_signal_then_up:
  "\<exists>w1 w2. loop False 1023 (world_init None) (gate_burst 0 @ gate_burst 0)
         = Some (w1, gate_burst 0)
     \<and> trackMode w1 \<and> \<not> lockMode w1 \<and> fDDS w1 = 0
     \<and> ddsTraffic w1 = ddsTraffic (world_init None)
     \<and> loop True 700 w1 (gate_burst 0) = Some (w2, [])
     \<and> \<not> trackMode w2 \<and> fDDS w2 = 4294967291"
proof -
  have m: "(0 :: nat) < 2 ^ 24" by simp
  have a: "BTN_LOCK_THRESH \<le> 1023" by (simp add: BTN_LOCK_THRESH_def)
  from loop_tracking_burst [where w = "world_init None" and m = 0 and rest = "gate_burst 0"
      and a = 1023, OF world_init_fresh m a world_init_unlocked]
  obtain w1 where l1: "loop False 1023 (world_init None) (gate_burst 0 @ gate_burst 0)
         = Some (w1, gate_burst 0)"
    and fr: "vGateSegCountdown (gate w1) = SEGS_PER_GATE" "TCNT1 (gate w1) = 0"
      "vCtr1OvrFlows (gate w1) = 0"
    and t: "trackMode w1" "\<not> lockMode w1"
    and f: "fDDS w1 = double_to_uint32
        (double_round (uint32_to_double 0 * scaleFactor (world_init None)))"
    and d: "ddsTraffic w1 = ddsTraffic (world_init None) @ command (fDDS w1)"
    by auto
  have v: "fDDS w1 = 0" unfolding f product_0 by (simp add: double_to_uint32_def)
  have cmd: "command 0 = []" by (simp add: command_def in_band_def F_MIN_def)
  from loop_burst [where w = w1 and m = 0 and rest = "[]" and d = True and a = 700, OF fr m]
  obtain w2 where l2: "loop True 700 w1 (gate_burst 0) = Some (w2, [])" by auto
  have n: "nudge_reading 700" "\<not> (700 :: int) < BTN_UP_THRESH"
    by (simp_all add: nudge_reading_def BTN_LOCK_THRESH_def NO_BUTS_THRESH_def BTN_UP_THRESH_def)
  from loop_fields [OF l2] n v have "\<not> trackMode w2" "fDDS w2 = 4294967291" by auto
  with l1 t v d cmd l2 show ?thesis by simp
qed

text \<open>
  Claim C7, as the code has it. A tracking cycle with a count of 400000 at the scale
  factor as initialised: the product is the \<open>double\<close> 4069010.25; \<open>fDDS\<close>, an integer,
  becomes 4069010; and since that is below the band, \<open>ddsSetFreq\<close> sends nothing to the
  synthesizer. A tracking cycle with no signal, count 0, leaves 0 in \<open>fDDS\<close>; in the next
  cycle, in hold mode, one reading of the up button takes \<open>fDDS\<close> from 0 to 4294967291,
  the subtraction wrapping in \<open>uint32_t\<close>.
\<close>

theorem loop_tracking_not_sent_counterexample:
  "loop False 1023 (world_init None) (gate_burst 400000) \<noteq> None
   \<and> map_option fst (getGatedCount (gate (world_init None)) (gate_burst 400000)) = Some 400000
   \<and> trackMode (fst (the (loop False 1023 (world_init None) (gate_burst 400000))))
   \<and> \<not> lockMode (fst (the (loop False 1023 (world_init None) (gate_burst 400000))))
   \<and> double_round (uint32_to_double 400000 * scaleFactor (world_init None)) = 4069010.25
   \<and> fDDS (fst (the (loop False 1023 (world_init None) (gate_burst 400000)))) = 4069010
   \<and> ddsTraffic (fst (the (loop False 1023 (world_init None) (gate_burst 400000))))
       = ddsTraffic (world_init None)
   \<and> run_cycles [(False, 1023), (True, 700)] (world_init None) (gate_burst 0 @ gate_burst 0)
       \<noteq> None
   \<and> fDDS (fst (the (loop False 1023 (world_init None) (gate_burst 0 @ gate_burst 0)))) = 0
   \<and> BTN_UP_THRESH \<le> 700 \<and> 700 \<le> NO_BUTS_THRESH
   \<and> \<not> trackMode (fst (the (run_cycles [(False, 1023), (True, 700)] (world_init None)
         (gate_burst 0 @ gate_burst 0))))
   \<and> fDDS (fst (the (run_cycles [(False, 1023), (True, 700)] (world_init None)
         (gate_burst 0 @ gate_burst 0)))) = 4294967291"
proof -
  from loop_400000 obtain w' where
    l: "loop False 1023 (world_init None) (gate_burst 400000) = Some (w', [])"
    and g: "getGatedCount (gate (world_init None)) (gate_burst 400000)
        = Some (400000, gate w', [])"
    and f: "trackMode w'" "\<not> lockMode w'" "fDDS w' = 4069010"
      "ddsTraffic w' = ddsTraffic (world_init None)"
    by blast
  have v: "double_round (uint32_to_double 400000 * scaleFactor (world_init None)) = 4069010.25"
    by (simp add: product_400000)
  from l g f have a: "loop False 1023 (world_init None) (gate_burst 400000) \<noteq> None
   \<and> map_option fst (getGatedCount (gate (world_init None)) (gate_burst 400000)) = Some 400000
   \<and> trackMode (fst (the (loop False 1023 (world_init None) (gate_burst 400000))))
   \<and> \<not> lockMode (fst (the (loop False 1023 (world_init None) (gate_burst 400000))))
   \<and> fDDS (fst (the (loop False 1023 (world_init None) (gate_burst 400000)))) = 4069010
   \<and> ddsTraffic (fst (the (loop False 1023 (world_init None) (gate_burst 400000))))
       = ddsTraffic (world_init None)"
    by simp
  from no_signal_then_up obtain w1 w2 where
    l1: "loop False 1023 (world_init None) (gate_burst 0 @ gate_burst 0)
         = Some (w1, gate_burst 0)"
    and z: "fDDS w1 = 0"
    and l2: "loop True 700 w1 (gate_burst 0) = Some (w2, [])"
    and w: "\<not> trackMode w2" "fDDS w2 = 4294967291"
    by blast
  have r: "run_cycles [(False, 1023), (True, 700)] (world_init None)
      (gate_burst 0 @ gate_burst 0) = Some (w2, [])"
    using l1 l2 by simp
  have b: "run_cycles [(False, 1023), (True, 700)] (world_init None) (gate_burst 0 @ gate_burst 0)
       \<noteq> None
   \<and> fDDS (fst (the (loop False 1023 (world_init None) (gate_burst 0 @ gate_burst 0)))) = 0
   \<and> BTN_UP_THRESH \<le> 700 \<and> 700 \<le> NO_BUTS_THRESH
   \<and> \<not> trackMode (fst (the (run_cycles [(False, 1023), (True, 700)] (world_init None)
         (gate_burst 0 @ gate_burst 0))))
   \<and> fDDS (fst (the (run_cycles [(False, 1023), (True, 700)] (world_init None)
         (gate_burst 0 @ gate_burst 0)))) = 4294967291"
    unfolding r using l1 z w by (simp add: BTN_UP_THRESH_def NO_BUTS_THRESH_def)
  from a v b show ?thesis by blast
qed

text \<open>
  Claim C7, amended. Per control cycle, with the modes as the cycle leaves them.
  Tracking and unlocked: \<open>fDDS\<close> is set to the latest gated count times the scale factor,
  the product being computed as a \<open>double\<close> (the count itself converts exactly) and
  converted to \<open>uint32_t\<close>, which drops its fraction; this value is handed to
  \<open>ddsSetFreq\<close>, which sends the command to the synthesizer when \<open>F_MIN < fDDS < F_MAX\<close>
  and nothing otherwise. Tracking and locked: \<open>fDDS\<close> does not change and nothing is
  sent, in one cycle and over any number of cycles, whatever the counts. Not tracking: a
  reading of the down button (below \<open>BTN_UP_THRESH\<close>) adds 5 to \<open>fDDS\<close>, a reading of the
  up button subtracts 5, in 32-bit unsigned arithmetic (exactly 5 as a number unless the
  value wraps at an end of the range), and the new value goes to \<open>ddsSetFreq\<close>; with no
  nudge button read \<open>fDDS\<close> stays.
\<close>

theorem loop_mode_table:
  assumes "loop vfoDC valA w evs = Some (w', rest)"
  shows "\<exists>c. getGatedCount (gate w) evs = Some (c, gate w', rest)
    \<and> trackMode w' = (\<not> vfoDC)
    \<and> (trackMode w' \<and> \<not> lockMode w' \<longrightarrow>
          fDDS w' = double_to_uint32 (double_round (uint32_to_double c * scaleFactor w))
        \<and> uint32_to_double c = real (unat c)
        \<and> (0 \<le> double_round (uint32_to_double c * scaleFactor w)
             \<and> double_round (uint32_to_double c * scaleFactor w) < 2 ^ 32 \<longrightarrow>
             uint (fDDS w') = \<lfloor>double_round (uint32_to_double c * scaleFactor w)\<rfloor>)
        \<and> ddsTraffic w' = ddsTraffic w @ command (fDDS w'))
    \<and> (trackMode w' \<and> lockMode w' \<longrightarrow> fDDS w' = fDDS w \<and> ddsTraffic w' = ddsTraffic w)
    \<and> (\<not> trackMode w' \<and> BTN_LOCK_THRESH \<le> valA \<and> valA < BTN_UP_THRESH \<longrightarrow>
          fDDS w' = fDDS w + 5
        \<and> uint (fDDS w') = (uint (fDDS w) + 5) mod 2 ^ 32
        \<and> (unat (fDDS w) < 2 ^ 32 - 5 \<longrightarrow> unat (fDDS w') = unat (fDDS w) + 5)
        \<and> ddsTraffic w' = ddsTraffic w @ command (fDDS w'))
    \<and> (\<not> trackMode w' \<and> BTN_UP_THRESH \<le> valA \<and> valA \<le> NO_BUTS_THRESH \<longrightarrow>
          fDDS w' = fDDS w - 5
        \<and> uint (fDDS w') = (uint (fDDS w) - 5) mod 2 ^ 32
        \<and> (5 \<le> unat (fDDS w) \<longrightarrow> unat (fDDS w') = unat (fDDS w) - 5)
        \<and> ddsTraffic w' = ddsTraffic w @ command (fDDS w'))
    \<and> (\<not> trackMode w' \<and> \<not> nudge_reading valA \<longrightarrow>
          fDDS w' = fDDS w \<and> ddsTraffic w' = ddsTraffic w)
    \<and> (\<forall>f v. ddsTraffic (ddsSetFreq f v) = ddsTraffic v @ command f)
    \<and> (\<forall>f. command f \<noteq> [] \<longleftrightarrow> F_MIN < uint f \<and> uint f < F_MAX)
    \<and> (\<forall>ins w0 evs0 wn restn.
          run_cycles ins w0 evs0 = Some (wn, restn) \<and> lockMode w0
          \<and> (\<forall>(d, a) \<in> set ins. \<not> d \<and> BTN_LOCK_THRESH \<le> a) \<longrightarrow>
          fDDS wn = fDDS w0 \<and> lockMode wn \<and> ddsTraffic wn = ddsTraffic w0)"
proof -
  from loop_fields [OF assms] obtain c where
    g: "getGatedCount (gate w) evs = Some (c, gate w', rest)"
    and t: "trackMode w' = (\<not> vfoDC)"
    and f: "fDDS w'
        = (if \<not> vfoDC \<and> \<not> lockMode w'
           then double_to_uint32 (double_round (uint32_to_double c * scaleFactor w))
           else if vfoDC \<and> nudge_reading valA
           then (if valA < BTN_UP_THRESH then fDDS w + 5 else fDDS w - 5)
           else fDDS w)"
    and d: "ddsTraffic w'
        = ddsTraffic w @ (if (\<not> vfoDC \<and> \<not> lockMode w') \<or> (vfoDC \<and> nudge_reading valA)
                          then command (fDDS w') else [])"
    by blast
  have x: "uint32_to_double c = real (unat c)"
    by (rule uint32_to_double_exact [OF getGatedCount_bound [OF g]])
  have fl: "0 \<le> P \<and> P < 2 ^ 32 \<longrightarrow> uint (double_to_uint32 P) = \<lfloor>P\<rfloor>" for P :: real
  proof
    assume b: "0 \<le> P \<and> P < 2 ^ 32"
    then have "0 \<le> \<lfloor>P\<rfloor>" "\<lfloor>P\<rfloor> < 2 ^ 32" by (simp_all add: floor_less_iff)
    then have "uint (word_of_int \<lfloor>P\<rfloor> :: 32 word) = \<lfloor>P\<rfloor>"
      by (simp add: uint_word_of_int take_bit_int_eq_self)
    then show "uint (double_to_uint32 P) = \<lfloor>P\<rfloor>" using b by (simp add: double_to_uint32_def)
  qed
  have a: "trackMode w' \<and> \<not> lockMode w' \<longrightarrow>
          fDDS w' = double_to_uint32 (double_round (uint32_to_double c * scaleFactor w))
        \<and> uint32_to_double c = real (unat c)
        \<and> (0 \<le> double_round (uint32_to_double c * scaleFactor w)
             \<and> double_round (uint32_to_double c * scaleFactor w) < 2 ^ 32 \<longrightarrow>
             uint (fDDS w') = \<lfloor>double_round (uint32_to_double c * scaleFactor w)\<rfloor>)
        \<and> ddsTraffic w' = ddsTraffic w @ command (fDDS w')"
    using t f d x fl [of "double_round (uint32_to_double c * scaleFactor w)"] by simp
  have b: "trackMode w' \<and> lockMode w' \<longrightarrow> fDDS w' = fDDS w \<and> ddsTraffic w' = ddsTraffic w"
    using t f d by simp
  have dn: "\<not> trackMode w' \<and> BTN_LOCK_THRESH \<le> valA \<and> valA < BTN_UP_THRESH \<longrightarrow>
          fDDS w' = fDDS w + 5
        \<and> uint (fDDS w') = (uint (fDDS w) + 5) mod 2 ^ 32
        \<and> (unat (fDDS w) < 2 ^ 32 - 5 \<longrightarrow> unat (fDDS w') = unat (fDDS w) + 5)
        \<and> ddsTraffic w' = ddsTraffic w @ command (fDDS w')"
    using t f d unat_plus5 [of "fDDS w"]
    by (simp add: nudge_reading_def BTN_UP_THRESH_def NO_BUTS_THRESH_def uint_word_ariths)
  have up: "\<not> trackMode w' \<and> BTN_UP_THRESH \<le> valA \<and> valA \<le> NO_BUTS_THRESH \<longrightarrow>
          fDDS w' = fDDS w - 5
        \<and> uint (fDDS w') = (uint (fDDS w) - 5) mod 2 ^ 32
        \<and> (5 \<le> unat (fDDS w) \<longrightarrow> unat (fDDS w') = unat (fDDS w) - 5)
        \<and> ddsTraffic w' = ddsTraffic w @ command (fDDS w')"
    using t f d unat_minus5 [of "fDDS w"]
    by (simp add: nudge_reading_def BTN_UP_THRESH_def BTN_LOCK_THRESH_def uint_word_ariths)
  have no: "\<not> trackMode w' \<and> \<not> nudge_reading valA \<longrightarrow>
          fDDS w' = fDDS w \<and> ddsTraffic w' = ddsTraffic w"
    using t f d by simp
  have cmd: "\<forall>f v. ddsTraffic (ddsSetFreq f v) = ddsTraffic v @ command f"
    by (simp add: ddsTraffic_ddsSetFreq)
  have band: "\<forall>f. command f \<noteq> [] \<longleftrightarrow> F_MIN < uint f \<and> uint f < F_MAX"
    by (simp add: command_def in_band_def dds_frame_nonempty)
  have rep: "\<forall>ins w0 evs0 wn restn.
          run_cycles ins w0 evs0 = Some (wn, restn) \<and> lockMode w0
          \<and> (\<forall>(d, a) \<in> set ins. \<not> d \<and> BTN_LOCK_THRESH \<le> a) \<longrightarrow>
          fDDS wn = fDDS w0 \<and> lockMode wn \<and> ddsTraffic wn = ddsTraffic w0"
    using run_cycles_locked by blast
  from g t a b dn up no cmd band rep show ?thesis by blast
qed

theorem loop_mode_table_witness:
  "\<exists>w'. loop False 1023 (world_init None) (gate_burst 516096) = Some (w', [])
     \<and> trackMode w' \<and> \<not> lockMode w' \<and> fDDS (world_init None) = 5250000
     \<and> fDDS w' = 5249999
     \<and> ddsTraffic w' = ddsTraffic (world_init None) @ command 5249999
     \<and> command 5249999 \<noteq> []"
proof -
  from loop_burst [where w = "world_init None" and m = 516096 and rest = "[]" and d = False
      and a = 1023, OF world_init_fresh]
  obtain w' where l: "loop False 1023 (world_init None) (gate_burst 516096) = Some (w', [])"
    and g: "getGatedCount (gate (world_init None)) (gate_burst 516096)
        = Some (516096, gate w', [])"
    by auto
  from loop_fields [OF l] have lk: "\<not> lockMode w'"
    by (auto simp: world_init_def BTN_LOCK_THRESH_def)
  from loop_mode_table [OF l] g lk have
    t: "trackMode w'"
    and f: "fDDS w' = double_to_uint32 (double_round (uint32_to_double 516096
        * scaleFactor (world_init None)))"
    and d: "ddsTraffic w' = ddsTraffic (world_init None) @ command (fDDS w')"
    and c: "command 5249999 \<noteq> [] \<longleftrightarrow> F_MIN < uint (5249999 :: 32 word)
        \<and> uint (5249999 :: 32 word) < F_MAX"
    by auto
  have v: "fDDS w' = 5249999"
    unfolding f product_516096 by (simp add: double_to_uint32_def)
  have i: "fDDS (world_init None) = 5250000" by (simp add: world_init_def F_MID_value)
  have ne: "command 5249999 \<noteq> []"
    unfolding c by (simp add: F_MIN_def F_MAX_def)
  from l t lk i v d ne show ?thesis by simp
qed

text \<open>
  Claim C9. \<open>fDDS\<close> is not clamped. A nudge adds or subtracts 5 whatever the value; a
  tracking cycle stores the converted product before \<open>ddsSetFreq\<close> looks at it. The band
  is checked only on the way to the pins: a value outside it is kept in \<open>fDDS\<close> and nothing
  is transmitted. From 5549998, inside the band, one press of the down button gives
  5550003, outside it, with nothing sent; one press of the up button then gives 5549998
  again, and this value is transmitted. A tracking cycle with a count of 400000 leaves
  4069010 in \<open>fDDS\<close>, below the band, with nothing sent.
\<close>

theorem fDDS_not_clamped:
  "(\<forall>valA w. nudge_reading valA \<longrightarrow>
       fDDS (CheckCtrlPins True valA w)
         = (if valA < BTN_UP_THRESH then fDDS w + 5 else fDDS w - 5)
     \<and> ddsTraffic (CheckCtrlPins True valA w)
         = ddsTraffic w @ command (fDDS (CheckCtrlPins True valA w)))
   \<and> (\<forall>vfoDC valA w evs w' rest.
        loop vfoDC valA w evs = Some (w', rest) \<and> trackMode w' \<and> \<not> lockMode w' \<longrightarrow>
        (\<exists>c. getGatedCount (gate w) evs = Some (c, gate w', rest)
           \<and> fDDS w' = double_to_uint32 (double_round (uint32_to_double c * scaleFactor w))
           \<and> ddsTraffic w' = ddsTraffic w @ command (fDDS w')))
   \<and> (\<forall>f. \<not> in_band f \<longrightarrow> command f = [])
   \<and> (\<forall>f. in_band f \<longleftrightarrow> F_MIN < uint f \<and> uint f < F_MAX)
   \<and> (\<forall>w. fDDS w = 5549998 \<longrightarrow>
        in_band (fDDS w)
      \<and> fDDS (CheckCtrlPins True 300 w) = 5550003
      \<and> \<not> in_band (fDDS (CheckCtrlPins True 300 w))
      \<and> ddsTraffic (CheckCtrlPins True 300 w) = ddsTraffic w
      \<and> fDDS (CheckCtrlPins True 700 (CheckCtrlPins True 300 w)) = 5549998
      \<and> in_band (fDDS (CheckCtrlPins True 700 (CheckCtrlPins True 300 w)))
      \<and> ddsTraffic (CheckCtrlPins True 700 (CheckCtrlPins True 300 w))
          = ddsTraffic w @ dds_frame (tuning_word 5549998))
   \<and> (\<exists>w'. loop False 1023 (world_init None) (gate_burst 400000) = Some (w', [])
        \<and> trackMode w' \<and> \<not> lockMode w' \<and> fDDS w' = 4069010 \<and> \<not> in_band (fDDS w')
        \<and> ddsTraffic w' = ddsTraffic (world_init None))"
proof -
  have p1: "\<forall>valA w. nudge_reading valA \<longrightarrow>
       fDDS (CheckCtrlPins True valA w)
         = (if valA < BTN_UP_THRESH then fDDS w + 5 else fDDS w - 5)
     \<and> ddsTraffic (CheckCtrlPins True valA w)
         = ddsTraffic w @ command (fDDS (CheckCtrlPins True valA w))"
    by (simp add: CheckCtrlPins_fields)
  have p2: "\<forall>vfoDC valA w evs w' rest.
        loop vfoDC valA w evs = Some (w', rest) \<and> trackMode w' \<and> \<not> lockMode w' \<longrightarrow>
        (\<exists>c. getGatedCount (gate w) evs = Some (c, gate w', rest)
           \<and> fDDS w' = double_to_uint32 (double_round (uint32_to_double c * scaleFactor w))
           \<and> ddsTraffic w' = ddsTraffic w @ command (fDDS w'))"
  proof (intro allI impI)
    fix vfoDC valA w evs w' rest
    assume a: "loop vfoDC valA w evs = Some (w', rest) \<and> trackMode w' \<and> \<not> lockMode w'"
    then have l: "loop vfoDC valA w evs = Some (w', rest)" and t: "trackMode w'"
      and k: "\<not> lockMode w'" by simp_all
    from loop_fields [OF l] obtain c where
      g: "getGatedCount (gate w) evs = Some (c, gate w', rest)"
      and tm: "trackMode w' = (\<not> vfoDC)"
      and f: "fDDS w'
        = (if \<not> vfoDC \<and> \<not> lockMode w'
           then double_to_uint32 (double_round (uint32_to_double c * scaleFactor w))
           else if vfoDC \<and> nudge_reading valA
           then (if valA < BTN_UP_THRESH then fDDS w + 5 else fDDS w - 5)
           else fDDS w)"
      and d: "ddsTraffic w'
        = ddsTraffic w @ (if (\<not> vfoDC \<and> \<not> lockMode w') \<or> (vfoDC \<and> nudge_reading valA)
                          then command (fDDS w') else [])"
      by blast
    from g tm f d t k
    have "getGatedCount (gate w) evs = Some (c, gate w', rest)
           \<and> fDDS w' = double_to_uint32 (double_round (uint32_to_double c * scaleFactor w))
           \<and> ddsTraffic w' = ddsTraffic w @ command (fDDS w')"
      by simp
    then show "\<exists>c. getGatedCount (gate w) evs = Some (c, gate w', rest)
           \<and> fDDS w' = double_to_uint32 (double_round (uint32_to_double c * scaleFactor w))
           \<and> ddsTraffic w' = ddsTraffic w @ command (fDDS w')" by blast
  qed
  have p3: "\<forall>f. \<not> in_band f \<longrightarrow> command f = []" by (simp add: command_def)
  have p4: "\<forall>f. in_band f \<longleftrightarrow> F_MIN < uint f \<and> uint f < F_MAX" by (simp add: in_band_def)
  have p5: "\<forall>w. fDDS w = 5549998 \<longrightarrow>
        in_band (fDDS w)
      \<and> fDDS (CheckCtrlPins True 300 w) = 5550003
      \<and> \<not> in_band (fDDS (CheckCtrlPins True 300 w))
      \<and> ddsTraffic (CheckCtrlPins True 300 w) = ddsTraffic w
      \<and> fDDS (CheckCtrlPins True 700 (CheckCtrlPins True 300 w)) = 5549998
      \<and> in_band (fDDS (CheckCtrlPins True 700 (CheckCtrlPins True 300 w)))
      \<and> ddsTraffic (CheckCtrlPins True 700 (CheckCtrlPins True 300 w))
          = ddsTraffic w @ dds_frame (tuning_word 5549998)"
    using nudge_excursion by blast
  have "\<not> in_band 4069010" by (simp add: in_band_def F_MIN_def)
  with loop_400000 have p6: "\<exists>w'. loop False 1023 (world_init None) (gate_burst 400000) = Some (w', [])
        \<and> trackMode w' \<and> \<not> lockMode w' \<and> fDDS w' = 4069010 \<and> \<not> in_band (fDDS w')
        \<and> ddsTraffic w' = ddsTraffic (world_init None)"
    by auto
  from p1 p2 p3 p4 p5 p6 show ?thesis by (intro conjI)
qed

theorem fDDS_not_clamped_witness:
  "nudge_reading 300
   \<and> fDDS (CheckCtrlPins True 300 (world_init None)) = fDDS (world_init None) + 5
   \<and> fDDS ((world_init None)\<lparr>fDDS := 5549998\<rparr>) = 5549998
   \<and> fDDS (CheckCtrlPins True 300 ((world_init None)\<lparr>fDDS := 5549998\<rparr>)) = 5550003
   \<and> \<not> in_band (fDDS (CheckCtrlPins True 300 ((world_init None)\<lparr>fDDS := 5549998\<rparr>)))
   \<and> ddsTraffic (CheckCtrlPins True 300 ((world_init None)\<lparr>fDDS := 5549998\<rparr>))
       = ddsTraffic ((world_init None)\<lparr>fDDS := 5549998\<rparr>)
   \<and> fDDS (CheckCtrlPins True 700 (CheckCtrlPins True 300 ((world_init None)\<lparr>fDDS := 5549998\<rparr>)))
       = 5549998
   \<and> in_band (fDDS (CheckCtrlPins True 700
        (CheckCtrlPins True 300 ((world_init None)\<lparr>fDDS := 5549998\<rparr>))))"
proof -
  have n: "nudge_reading 300"
    by (simp add: nudge_reading_def BTN_LOCK_THRESH_def NO_BUTS_THRESH_def)
  have f: "fDDS ((world_init None)\<lparr>fDDS := 5549998\<rparr>) = 5549998" by simp
  from fDDS_not_clamped [THEN conjunct1, rule_format, of 300 "world_init None"] n
  have a: "fDDS (CheckCtrlPins True 300 (world_init None)) = fDDS (world_init None) + 5"
    by (simp add: BTN_UP_THRESH_def)
  from fDDS_not_clamped [THEN conjunct2, THEN conjunct2, THEN conjunct2, THEN conjunct2,
      THEN conjunct1, rule_format, of "(world_init None)\<lparr>fDDS := 5549998\<rparr>"] f
  have b: "fDDS (CheckCtrlPins True 300 ((world_init None)\<lparr>fDDS := 5549998\<rparr>)) = 5550003
   \<and> \<not> in_band (fDDS (CheckCtrlPins True 300 ((world_init None)\<lparr>fDDS := 5549998\<rparr>)))
   \<and> ddsTraffic (CheckCtrlPins True 300 ((world_init None)\<lparr>fDDS := 5549998\<rparr>))
       = ddsTraffic ((world_init None)\<lparr>fDDS := 5549998\<rparr>)
   \<and> fDDS (CheckCtrlPins True 700 (CheckCtrlPins True 300 ((world_init None)\<lparr>fDDS := 5549998\<rparr>)))
       = 5549998
   \<and> in_band (fDDS (CheckCtrlPins True 700
        (CheckCtrlPins True 300 ((world_init None)\<lparr>fDDS := 5549998\<rparr>))))"
    by blast
  from n f a b show ?thesis by (intro conjI) blast+
qed

subsection \<open>The lock latch\<close>

lemma latch_history:
  "run_cycles ins w evs = Some (w', rest) \<Longrightarrow>
     oldLockBtnPressed w' \<longleftrightarrow>
       (oldLockBtnPressed w \<and> (\<forall>(d, a) \<in> set ins. a \<le> NO_BUTS_THRESH))
     \<or> (\<exists>pre d a post. ins = pre @ (d, a) # post \<and> a < BTN_LOCK_THRESH
           \<and> (\<forall>(d', a') \<in> set post. a' \<le> NO_BUTS_THRESH))"
proof (induction ins arbitrary: w evs)
  case Nil
  then show ?case by simp
next
  case (Cons i ins)
  obtain d0 a0 where i: "i = (d0, a0)" by (cases i)
  from Cons.prems i obtain w1 r1 where
    l: "loop d0 a0 w evs = Some (w1, r1)" and r: "run_cycles ins w1 r1 = Some (w', rest)"
    by (auto split: option.splits)
  let ?quiet = "\<forall>(d, a) \<in> set ins. a \<le> NO_BUTS_THRESH"
  let ?split = "\<exists>pre d a post. ins = pre @ (d, a) # post \<and> a < BTN_LOCK_THRESH
           \<and> (\<forall>(d', a') \<in> set post. a' \<le> NO_BUTS_THRESH)"
  have ih: "oldLockBtnPressed w' \<longleftrightarrow> (oldLockBtnPressed w1 \<and> ?quiet) \<or> ?split"
    by (rule Cons.IH [OF r])
  have o1: "oldLockBtnPressed w1
        = (if a0 > NO_BUTS_THRESH then False
           else if a0 < BTN_LOCK_THRESH then True else oldLockBtnPressed w)"
    by (rule loop_lock(2) [OF l])
  have sp: "(\<exists>pre d a post. i # ins = pre @ (d, a) # post \<and> a < BTN_LOCK_THRESH
           \<and> (\<forall>(d', a') \<in> set post. a' \<le> NO_BUTS_THRESH))
      \<longleftrightarrow> (a0 < BTN_LOCK_THRESH \<and> ?quiet) \<or> ?split"
  proof
    assume "\<exists>pre d a post. i # ins = pre @ (d, a) # post \<and> a < BTN_LOCK_THRESH
           \<and> (\<forall>(d', a') \<in> set post. a' \<le> NO_BUTS_THRESH)"
    then obtain pre d a post where e: "i # ins = pre @ (d, a) # post"
      and a: "a < BTN_LOCK_THRESH" and q: "\<forall>(d', a') \<in> set post. a' \<le> NO_BUTS_THRESH"
      by blast
    show "(a0 < BTN_LOCK_THRESH \<and> ?quiet) \<or> ?split"
    proof (cases pre)
      case Nil
      with e i have "a0 = a" "ins = post" by simp_all
      with a q show ?thesis by simp
    next
      case (Cons x pre')
      with e have "ins = pre' @ (d, a) # post" by simp
      with a q show ?thesis by blast
    qed
  next
    assume "(a0 < BTN_LOCK_THRESH \<and> ?quiet) \<or> ?split"
    then show "\<exists>pre d a post. i # ins = pre @ (d, a) # post \<and> a < BTN_LOCK_THRESH
           \<and> (\<forall>(d', a') \<in> set post. a' \<le> NO_BUTS_THRESH)"
    proof
      assume h: "a0 < BTN_LOCK_THRESH \<and> ?quiet"
      have "i # ins = [] @ (d0, a0) # ins" using i by simp
      with h show ?thesis by blast
    next
      assume ?split
      then obtain pre d a post where "ins = pre @ (d, a) # post" "a < BTN_LOCK_THRESH"
        "\<forall>(d', a') \<in> set post. a' \<le> NO_BUTS_THRESH" by blast
      then have "i # ins = (i # pre) @ (d, a) # post \<and> a < BTN_LOCK_THRESH
        \<and> (\<forall>(d', a') \<in> set post. a' \<le> NO_BUTS_THRESH)" by simp
      then show ?thesis by blast
    qed
  qed
  have q: "(\<forall>(d, a) \<in> set (i # ins). a \<le> NO_BUTS_THRESH) \<longleftrightarrow> a0 \<le> NO_BUTS_THRESH \<and> ?quiet"
    using i by simp
  show ?case unfolding sp q ih o1
    by (auto simp: BTN_LOCK_THRESH_def NO_BUTS_THRESH_def)
qed

lemma loop_nudge_tracking:
  assumes l: "loop False a w evs = Some (w', rest)" and n: "nudge_reading a"
  shows "lockMode w' = lockMode w
     \<and> (\<exists>c. getGatedCount (gate w) evs = Some (c, gate w', rest)
          \<and> fDDS w' = (if lockMode w then fDDS w
               else double_to_uint32 (double_round (uint32_to_double c * scaleFactor w))))
     \<and> (\<forall>a0. NO_BUTS_THRESH < a0 \<longrightarrow>
          (\<exists>w0. loop False a0 w evs = Some (w0, rest) \<and> fDDS w0 = fDDS w'
             \<and> lockMode w0 = lockMode w' \<and> ddsTraffic w0 = ddsTraffic w'))"
proof -
  have na: "\<not> a < BTN_LOCK_THRESH" using n by (simp add: nudge_reading_def)
  from loop_fields [OF l] obtain c where
    g: "getGatedCount (gate w) evs = Some (c, gate w', rest)"
    and k: "lockMode w' = lockMode w"
    and f: "fDDS w' = (if \<not> lockMode w'
           then double_to_uint32 (double_round (uint32_to_double c * scaleFactor w))
           else fDDS w)"
    and d: "ddsTraffic w' = ddsTraffic w @ (if \<not> lockMode w' then command (fDDS w') else [])"
    using na by auto
  have same: "\<forall>a0. NO_BUTS_THRESH < a0 \<longrightarrow>
          (\<exists>w0. loop False a0 w evs = Some (w0, rest) \<and> fDDS w0 = fDDS w'
             \<and> lockMode w0 = lockMode w' \<and> ddsTraffic w0 = ddsTraffic w')"
  proof (intro allI impI)
    fix a0 :: int
    assume a0: "NO_BUTS_THRESH < a0"
    then have n0: "\<not> a0 < BTN_LOCK_THRESH"
      by (simp add: NO_BUTS_THRESH_def BTN_LOCK_THRESH_def)
    from loop_returns [OF g] obtain w0 where l0: "loop False a0 w evs = Some (w0, rest)"
      by blast
    from loop_fields [OF l0] g n0 have
      "lockMode w0 = lockMode w"
      "fDDS w0 = (if \<not> lockMode w0
           then double_to_uint32 (double_round (uint32_to_double c * scaleFactor w))
           else fDDS w)"
      "ddsTraffic w0 = ddsTraffic w @ (if \<not> lockMode w0 then command (fDDS w0) else [])"
      by auto
    with k f d have "fDDS w0 = fDDS w' \<and> lockMode w0 = lockMode w'
        \<and> ddsTraffic w0 = ddsTraffic w'" by simp
    with l0 show "\<exists>w0. loop False a0 w evs = Some (w0, rest) \<and> fDDS w0 = fDDS w'
             \<and> lockMode w0 = lockMode w' \<and> ddsTraffic w0 = ddsTraffic w'" by blast
  qed
  have "fDDS w' = (if lockMode w then fDDS w
               else double_to_uint32 (double_round (uint32_to_double c * scaleFactor w)))"
    using f k by simp
  with g k same show ?thesis by blast
qed

lemma doCalib_latch:
  "doCalib w evs = Some (w', rest) \<Longrightarrow> oldLockBtnPressed w' = oldLockBtnPressed w"
  by (auto simp: doCalib_eq split: option.splits)

lemma setup_sketch_latch:
  assumes "setup_sketch valA w evs = Some (w1, rest)"
  shows "oldLockBtnPressed w1 = oldLockBtnPressed w"
proof (cases "valA < NO_BUTS_THRESH")
  case True
  with assms obtain w6 where
    d: "doCalib (Serial_println (Str (''To calibrate, set calib jumper, then press arduino reset btn ''
                 @ ''while holding either nudge btn pressed''))
          (setupTimers (ddsSetFreq (word_of_int F_MID) (setupDds (setupPins w))))) evs
        = Some (w6, rest)"
    and w1: "w1 = getStoredCalib w6"
    by (auto simp: setup_sketch_def Let_def split: option.splits)
  from doCalib_latch [OF d] w1 show ?thesis
    by (simp add: setupTimers_def setupDds_def setupPins_def)
next
  case False
  with assms have "w1 = getStoredCalib (Serial_println (Str (''To calibrate, set calib jumper, then press arduino reset btn ''
                 @ ''while holding either nudge btn pressed''))
          (setupTimers (ddsSetFreq (word_of_int F_MID) (setupDds (setupPins w)))))"
    by (auto simp: setup_sketch_def Let_def)
  then show ?thesis by (simp add: setupTimers_def setupDds_def setupPins_def)
qed

lemma toggle_history:
  assumes c: "\<not> oldLockBtnPressed w" and r: "run_cycles ins w evs = Some (w', rest)"
    and l: "loop d a w' rest = Some (w'', rest')"
  shows "lockMode w'' \<noteq> lockMode w' \<longleftrightarrow>
     a < BTN_LOCK_THRESH
     \<and> (\<forall>pre d1 a1 post. ins = pre @ (d1, a1) # post \<and> a1 < BTN_LOCK_THRESH \<longrightarrow>
          (\<exists>(d2, a2) \<in> set post. NO_BUTS_THRESH < a2))"
proof -
  have t: "lockMode w'' \<noteq> lockMode w' \<longleftrightarrow> a < BTN_LOCK_THRESH \<and> \<not> oldLockBtnPressed w'"
    using loop_lock(1) [OF l] by simp
  have h: "oldLockBtnPressed w' \<longleftrightarrow>
      (\<exists>pre d a post. ins = pre @ (d, a) # post \<and> a < BTN_LOCK_THRESH
           \<and> (\<forall>(d', a') \<in> set post. a' \<le> NO_BUTS_THRESH))"
    using latch_history [OF r] c by simp
  have "(\<not> (\<exists>pre d a post. ins = pre @ (d, a) # post \<and> a < BTN_LOCK_THRESH
           \<and> (\<forall>(d', a') \<in> set post. a' \<le> NO_BUTS_THRESH)))
      \<longleftrightarrow> (\<forall>pre d1 a1 post. ins = pre @ (d1, a1) # post \<and> a1 < BTN_LOCK_THRESH \<longrightarrow>
          (\<exists>(d2, a2) \<in> set post. NO_BUTS_THRESH < a2))"
    by (simp add: not_le split_beta) blast
  with t h show ?thesis by simp
qed

lemma first_lock_press:
  "\<exists>w'. loop True 0 (world_init None) (gate_burst 0) = Some (w', [])
     \<and> \<not> lockMode (world_init None) \<and> lockMode w'"
proof -
  have m: "(0 :: nat) < 2 ^ 24" by simp
  from loop_burst [where w = "world_init None" and m = 0 and rest = "[]" and d = True
      and a = 0, OF world_init_fresh m]
  obtain w' where l: "loop True 0 (world_init None) (gate_burst 0) = Some (w', [])" by auto
  from loop_lock(1) [OF l] have "lockMode w'"
    by (simp add: world_init_def BTN_LOCK_THRESH_def)
  with l show ?thesis by (simp add: world_init_def)
qed

text \<open>
  Claim C10, as the code has it. A nudge button repeats only in hold mode. With the radio
  tracking and the lock on, two cycles in a row that read the down button leave \<open>fDDS\<close>
  as it was. And the latch of the lock button is clear at reset: the first cycle after
  reset reads the lock button and toggles \<open>lockMode\<close>, with no earlier cycle in which the
  button was released.
\<close>

theorem nudge_in_tracking_counterexample:
  "run_cycles [(False, 300), (False, 300)] ((world_init None)\<lparr>lockMode := True\<rparr>)
      (gate_burst 516096 @ gate_burst 516096) \<noteq> None
   \<and> BTN_LOCK_THRESH \<le> 300 \<and> 300 < BTN_UP_THRESH
   \<and> fDDS (fst (the (run_cycles [(False, 300), (False, 300)]
        ((world_init None)\<lparr>lockMode := True\<rparr>) (gate_burst 516096 @ gate_burst 516096))))
       = fDDS ((world_init None)\<lparr>lockMode := True\<rparr>)
   \<and> loop True 0 (world_init None) (gate_burst 0) \<noteq> None
   \<and> 0 < BTN_LOCK_THRESH
   \<and> \<not> lockMode (world_init None)
   \<and> lockMode (fst (the (loop True 0 (world_init None) (gate_burst 0))))"
proof -
  let ?w = "(world_init None)\<lparr>lockMode := True\<rparr>"
  have m: "(516096 :: nat) < 2 ^ 24" by simp
  have fr: "vGateSegCountdown (gate ?w) = SEGS_PER_GATE" "TCNT1 (gate ?w) = 0"
    "vCtr1OvrFlows (gate ?w) = 0"
    by (simp_all add: world_init_fresh)
  from run_cycles_bursts [where w = ?w and m = 516096 and rest = "[]"
      and ins = "[(False, 300), (False, 300)]", OF fr m]
  obtain w' where r: "run_cycles [(False, 300), (False, 300)] ?w
      (gate_burst 516096 @ gate_burst 516096) = Some (w', [])"
    by auto
  have "fDDS w' = fDDS ?w"
    using run_cycles_locked [OF r] by (simp add: BTN_LOCK_THRESH_def)
  with r have a: "run_cycles [(False, 300), (False, 300)] ?w
      (gate_burst 516096 @ gate_burst 516096) \<noteq> None
   \<and> BTN_LOCK_THRESH \<le> 300 \<and> 300 < BTN_UP_THRESH
   \<and> fDDS (fst (the (run_cycles [(False, 300), (False, 300)] ?w
        (gate_burst 516096 @ gate_burst 516096)))) = fDDS ?w"
    by (simp add: BTN_LOCK_THRESH_def BTN_UP_THRESH_def)
  from first_lock_press obtain w1 where
    "loop True 0 (world_init None) (gate_burst 0) = Some (w1, [])"
    "\<not> lockMode (world_init None)" "lockMode w1" by blast
  then have b: "loop True 0 (world_init None) (gate_burst 0) \<noteq> None
   \<and> 0 < BTN_LOCK_THRESH
   \<and> \<not> lockMode (world_init None)
   \<and> lockMode (fst (the (loop True 0 (world_init None) (gate_burst 0))))"
    by (simp add: BTN_LOCK_THRESH_def)
  from a b show ?thesis by blast
qed

text \<open>
  Claim C10, amended. \<open>lockMode\<close> changes in a cycle exactly when the lock button is read
  and the latch \<open>oldLockBtnPressed\<close> is clear. The latch is clear at reset and still clear
  when \<open>setup\<close> has run; after any number of cycles it is set exactly when some cycle
  read the lock button and no later cycle read "no button" (or it was set to begin with
  and no cycle read "no button"). So, starting with the latch clear, \<open>lockMode\<close> toggles
  in a cycle exactly when that cycle reads the lock button and every earlier cycle that
  read it has been followed by one that read no button; a lock button held over
  consecutive cycles toggles \<open>lockMode\<close> in the first of them if the latch was clear, and
  never again. In hold mode a held nudge button changes \<open>fDDS\<close> in every cycle, by 5 each
  time and by \<open>5 * n\<close> over \<open>n\<close> cycles (32-bit unsigned arithmetic). While the radio is
  tracking the nudge buttons do not act: the cycle leaves \<open>lockMode\<close> alone, \<open>fDDS\<close> stays
  if the lock is on and takes the value resolved from the count if it is off, and
  \<open>fDDS\<close>, \<open>lockMode\<close> and what is sent to the synthesizer are the same as in a cycle
  that reads no button.
\<close>

theorem lock_edge_nudge_repeat:
  "(\<forall>d a w evs w' rest. loop d a w evs = Some (w', rest) \<longrightarrow>
      (lockMode w' \<noteq> lockMode w \<longleftrightarrow> a < BTN_LOCK_THRESH \<and> \<not> oldLockBtnPressed w)
    \<and> oldLockBtnPressed w'
        = (if a > NO_BUTS_THRESH then False
           else if a < BTN_LOCK_THRESH then True else oldLockBtnPressed w))
   \<and> (\<forall>stored. \<not> oldLockBtnPressed (world_init stored))
   \<and> (\<forall>valA stored evs w1 rest.
        setup_sketch valA (world_init stored) evs = Some (w1, rest) \<longrightarrow>
        \<not> oldLockBtnPressed w1)
   \<and> (\<forall>ins w evs w' rest. run_cycles ins w evs = Some (w', rest) \<longrightarrow>
        (oldLockBtnPressed w' \<longleftrightarrow>
           (oldLockBtnPressed w \<and> (\<forall>(d, a) \<in> set ins. a \<le> NO_BUTS_THRESH))
         \<or> (\<exists>pre d a post. ins = pre @ (d, a) # post \<and> a < BTN_LOCK_THRESH
               \<and> (\<forall>(d', a') \<in> set post. a' \<le> NO_BUTS_THRESH))))
   \<and> (\<forall>ins d a w evs w' w'' rest rest'.
        \<not> oldLockBtnPressed w \<and> run_cycles ins w evs = Some (w', rest)
        \<and> loop d a w' rest = Some (w'', rest') \<longrightarrow>
        (lockMode w'' \<noteq> lockMode w' \<longleftrightarrow>
           a < BTN_LOCK_THRESH
         \<and> (\<forall>pre d1 a1 post. ins = pre @ (d1, a1) # post \<and> a1 < BTN_LOCK_THRESH \<longrightarrow>
                (\<exists>(d2, a2) \<in> set post. NO_BUTS_THRESH < a2))))
   \<and> (\<forall>ins w evs w' rest.
        run_cycles ins w evs = Some (w', rest) \<and> oldLockBtnPressed w
        \<and> (\<forall>(d, a) \<in> set ins. a \<le> NO_BUTS_THRESH) \<longrightarrow>
        lockMode w' = lockMode w \<and> oldLockBtnPressed w')
   \<and> (\<forall>d a ins w evs w' rest.
        run_cycles ((d, a) # ins) w evs = Some (w', rest) \<and> a < BTN_LOCK_THRESH
        \<and> (\<forall>(d', a') \<in> set ins. a' < BTN_LOCK_THRESH) \<longrightarrow>
        lockMode w' = (if oldLockBtnPressed w then lockMode w else \<not> lockMode w))
   \<and> (\<forall>a w evs w' rest. loop True a w evs = Some (w', rest) \<and> nudge_reading a \<longrightarrow>
        fDDS w' = (if a < BTN_UP_THRESH then fDDS w + 5 else fDDS w - 5) \<and> fDDS w' \<noteq> fDDS w)
   \<and> (\<forall>n a w evs w' rest.
        run_cycles (replicate n (True, a)) w evs = Some (w', rest) \<and> nudge_reading a \<longrightarrow>
        fDDS w' = (if a < BTN_UP_THRESH then fDDS w + 5 * of_nat n else fDDS w - 5 * of_nat n))
   \<and> (\<forall>a w evs w' rest. loop False a w evs = Some (w', rest) \<and> nudge_reading a \<and> lockMode w \<longrightarrow>
        fDDS w' = fDDS w)
   \<and> (\<forall>a w evs w' rest. loop False a w evs = Some (w', rest) \<and> nudge_reading a \<longrightarrow>
        lockMode w' = lockMode w
      \<and> (\<exists>c. getGatedCount (gate w) evs = Some (c, gate w', rest)
           \<and> fDDS w' = (if lockMode w then fDDS w
                else double_to_uint32 (double_round (uint32_to_double c * scaleFactor w))))
      \<and> (\<forall>a0. NO_BUTS_THRESH < a0 \<longrightarrow>
           (\<exists>w0. loop False a0 w evs = Some (w0, rest) \<and> fDDS w0 = fDDS w'
              \<and> lockMode w0 = lockMode w' \<and> ddsTraffic w0 = ddsTraffic w')))
   \<and> (\<forall>a. nudge_reading a \<longleftrightarrow> BTN_LOCK_THRESH \<le> a \<and> a \<le> NO_BUTS_THRESH)"
proof -
  have p1: "\<forall>d a w evs w' rest. loop d a w evs = Some (w', rest) \<longrightarrow>
      (lockMode w' \<noteq> lockMode w \<longleftrightarrow> a < BTN_LOCK_THRESH \<and> \<not> oldLockBtnPressed w)
    \<and> oldLockBtnPressed w'
        = (if a > NO_BUTS_THRESH then False
           else if a < BTN_LOCK_THRESH then True else oldLockBtnPressed w)"
  proof (intro allI impI)
    fix d a w evs w' rest
    assume "loop d a w evs = Some (w', rest)"
    from loop_lock [OF this]
    show "(lockMode w' \<noteq> lockMode w \<longleftrightarrow> a < BTN_LOCK_THRESH \<and> \<not> oldLockBtnPressed w)
      \<and> oldLockBtnPressed w'
        = (if a > NO_BUTS_THRESH then False
           else if a < BTN_LOCK_THRESH then True else oldLockBtnPressed w)"
      by simp
  qed
  have p0: "\<forall>stored. \<not> oldLockBtnPressed (world_init stored)" by (simp add: world_init_def)
  have ph: "\<forall>ins w evs w' rest. run_cycles ins w evs = Some (w', rest) \<longrightarrow>
        (oldLockBtnPressed w' \<longleftrightarrow>
           (oldLockBtnPressed w \<and> (\<forall>(d, a) \<in> set ins. a \<le> NO_BUTS_THRESH))
         \<or> (\<exists>pre d a post. ins = pre @ (d, a) # post \<and> a < BTN_LOCK_THRESH
               \<and> (\<forall>(d', a') \<in> set post. a' \<le> NO_BUTS_THRESH)))"
    using latch_history by blast
  have ps: "\<forall>valA stored evs w1 rest.
        setup_sketch valA (world_init stored) evs = Some (w1, rest) \<longrightarrow>
        \<not> oldLockBtnPressed w1"
  proof (intro allI impI)
    fix valA stored evs w1 rest
    assume "setup_sketch valA (world_init stored) evs = Some (w1, rest)"
    from setup_sketch_latch [OF this] show "\<not> oldLockBtnPressed w1"
      by (simp add: world_init_def)
  qed
  have pt: "\<forall>ins d a w evs w' w'' rest rest'.
        \<not> oldLockBtnPressed w \<and> run_cycles ins w evs = Some (w', rest)
        \<and> loop d a w' rest = Some (w'', rest') \<longrightarrow>
        (lockMode w'' \<noteq> lockMode w' \<longleftrightarrow>
           a < BTN_LOCK_THRESH
         \<and> (\<forall>pre d1 a1 post. ins = pre @ (d1, a1) # post \<and> a1 < BTN_LOCK_THRESH \<longrightarrow>
                (\<exists>(d2, a2) \<in> set post. NO_BUTS_THRESH < a2)))"
  proof (intro allI impI)
    fix ins d a w evs w' w'' rest rest'
    assume "\<not> oldLockBtnPressed w \<and> run_cycles ins w evs = Some (w', rest)
        \<and> loop d a w' rest = Some (w'', rest')"
    then have c: "\<not> oldLockBtnPressed w" and r: "run_cycles ins w evs = Some (w', rest)"
      and l: "loop d a w' rest = Some (w'', rest')" by simp_all
    show "lockMode w'' \<noteq> lockMode w' \<longleftrightarrow>
           a < BTN_LOCK_THRESH
         \<and> (\<forall>pre d1 a1 post. ins = pre @ (d1, a1) # post \<and> a1 < BTN_LOCK_THRESH \<longrightarrow>
                (\<exists>(d2, a2) \<in> set post. NO_BUTS_THRESH < a2))"
      by (rule toggle_history [OF c r l])
  qed
  have p2: "\<forall>ins w evs w' rest.
        run_cycles ins w evs = Some (w', rest) \<and> oldLockBtnPressed w
        \<and> (\<forall>(d, a) \<in> set ins. a \<le> NO_BUTS_THRESH) \<longrightarrow>
        lockMode w' = lockMode w \<and> oldLockBtnPressed w'"
    using run_cycles_latched by blast
  have p3: "\<forall>d a ins w evs w' rest.
        run_cycles ((d, a) # ins) w evs = Some (w', rest) \<and> a < BTN_LOCK_THRESH
        \<and> (\<forall>(d', a') \<in> set ins. a' < BTN_LOCK_THRESH) \<longrightarrow>
        lockMode w' = (if oldLockBtnPressed w then lockMode w else \<not> lockMode w)"
    using run_cycles_lock_held by blast
  have p4: "\<forall>a w evs w' rest. loop True a w evs = Some (w', rest) \<and> nudge_reading a \<longrightarrow>
        fDDS w' = (if a < BTN_UP_THRESH then fDDS w + 5 else fDDS w - 5) \<and> fDDS w' \<noteq> fDDS w"
  proof (intro allI impI)
    fix a w evs w' rest
    assume "loop True a w evs = Some (w', rest) \<and> nudge_reading a"
    then have "fDDS w' = (if a < BTN_UP_THRESH then fDDS w + 5 else fDDS w - 5)"
      using loop_nudge_hold by blast
    then show "fDDS w' = (if a < BTN_UP_THRESH then fDDS w + 5 else fDDS w - 5)
        \<and> fDDS w' \<noteq> fDDS w" by simp
  qed
  have p5: "\<forall>n a w evs w' rest.
        run_cycles (replicate n (True, a)) w evs = Some (w', rest) \<and> nudge_reading a \<longrightarrow>
        fDDS w' = (if a < BTN_UP_THRESH then fDDS w + 5 * of_nat n else fDDS w - 5 * of_nat n)"
    using run_cycles_nudge_held by blast
  have p6: "\<forall>a w evs w' rest.
        loop False a w evs = Some (w', rest) \<and> nudge_reading a \<and> lockMode w \<longrightarrow>
        fDDS w' = fDDS w"
    using loop_nudge_tracking_locked by blast
  have p7: "\<forall>a w evs w' rest. loop False a w evs = Some (w', rest) \<and> nudge_reading a \<longrightarrow>
        lockMode w' = lockMode w
      \<and> (\<exists>c. getGatedCount (gate w) evs = Some (c, gate w', rest)
           \<and> fDDS w' = (if lockMode w then fDDS w
                else double_to_uint32 (double_round (uint32_to_double c * scaleFactor w))))
      \<and> (\<forall>a0. NO_BUTS_THRESH < a0 \<longrightarrow>
           (\<exists>w0. loop False a0 w evs = Some (w0, rest) \<and> fDDS w0 = fDDS w'
              \<and> lockMode w0 = lockMode w' \<and> ddsTraffic w0 = ddsTraffic w'))"
    using loop_nudge_tracking by blast
  have p8: "\<forall>a. nudge_reading a \<longleftrightarrow> BTN_LOCK_THRESH \<le> a \<and> a \<le> NO_BUTS_THRESH"
    by (simp add: nudge_reading_def)
  from p1 p0 ps ph pt p2 p3 p4 p5 p6 p7 p8 show ?thesis by (intro conjI)
qed

theorem lock_edge_nudge_repeat_witness:
  "(\<exists>w'. run_cycles [(True, 0), (True, 0), (True, 0)] (world_init None)
            (gate_burst 0 @ gate_burst 0 @ gate_burst 0) = Some (w', [])
        \<and> lockMode w' = (\<not> lockMode (world_init None)))
   \<and> (\<exists>w'. run_cycles (replicate 3 (True, 300)) (world_init None)
            (concat (replicate 3 (gate_burst 0))) = Some (w', [])
        \<and> fDDS w' = fDDS (world_init None) + 15)
   \<and> (\<exists>w'. loop False 300 ((world_init None)\<lparr>lockMode := True\<rparr>) (gate_burst 0) = Some (w', [])
        \<and> fDDS w' = fDDS (world_init None))
   \<and> (\<exists>w' w0. loop False 300 (world_init None) (gate_burst 516096) = Some (w', [])
        \<and> nudge_reading 300 \<and> \<not> lockMode w' \<and> fDDS w' = 5249999
        \<and> loop False 1023 (world_init None) (gate_burst 516096) = Some (w0, [])
        \<and> fDDS w0 = fDDS w' \<and> ddsTraffic w0 = ddsTraffic w')"
proof (intro conjI)
  have m: "(0 :: nat) < 2 ^ 24" by simp
  from run_cycles_bursts [where w = "world_init None" and m = 0 and rest = "[]"
      and ins = "[(True, 0), (True, 0), (True, 0)]", OF world_init_fresh m]
  obtain w' where r: "run_cycles [(True, 0), (True, 0), (True, 0)] (world_init None)
            (gate_burst 0 @ gate_burst 0 @ gate_burst 0) = Some (w', [])"
    by auto
  have h: "(0 :: int) < BTN_LOCK_THRESH
      \<and> (\<forall>(d', a') \<in> set [(True, 0), (True, 0 :: int)]. a' < BTN_LOCK_THRESH)"
    by (simp add: BTN_LOCK_THRESH_def)
  from lock_edge_nudge_repeat [THEN conjunct2, THEN conjunct2, THEN conjunct2, THEN conjunct2, THEN conjunct2, THEN conjunct2,
      THEN conjunct1, rule_format,
      of True 0 "[(True, 0), (True, 0)]" "world_init None"
         "gate_burst 0 @ gate_burst 0 @ gate_burst 0" w' "[]"] r h
  have "lockMode w' = (if oldLockBtnPressed (world_init None)
      then lockMode (world_init None) else \<not> lockMode (world_init None))"
    by blast
  then have "lockMode w' = (\<not> lockMode (world_init None))" by (simp add: world_init_def)
  with r show "\<exists>w'. run_cycles [(True, 0), (True, 0), (True, 0)] (world_init None)
            (gate_burst 0 @ gate_burst 0 @ gate_burst 0) = Some (w', [])
        \<and> lockMode w' = (\<not> lockMode (world_init None))" by blast
next
  have m: "(0 :: nat) < 2 ^ 24" by simp
  from run_cycles_bursts [where w = "world_init None" and m = 0 and rest = "[]"
      and ins = "replicate 3 (True, 300)", OF world_init_fresh m]
  obtain w' where r: "run_cycles (replicate 3 (True, 300)) (world_init None)
            (concat (replicate 3 (gate_burst 0))) = Some (w', [])"
    by auto
  have n: "nudge_reading 300"
    by (simp add: nudge_reading_def BTN_LOCK_THRESH_def NO_BUTS_THRESH_def)
  from lock_edge_nudge_repeat [THEN conjunct2, THEN conjunct2, THEN conjunct2, THEN conjunct2, THEN conjunct2, THEN conjunct2,
      THEN conjunct2, THEN conjunct2, THEN conjunct1, rule_format,
      of 3 300 "world_init None" "concat (replicate 3 (gate_burst 0))" w' "[]"] r n
  have "fDDS w' = (if (300 :: int) < BTN_UP_THRESH
      then fDDS (world_init None) + 5 * of_nat 3 else fDDS (world_init None) - 5 * of_nat 3)"
    by blast
  then have "fDDS w' = fDDS (world_init None) + 15" by (simp add: BTN_UP_THRESH_def)
  with r show "\<exists>w'. run_cycles (replicate 3 (True, 300)) (world_init None)
            (concat (replicate 3 (gate_burst 0))) = Some (w', [])
        \<and> fDDS w' = fDDS (world_init None) + 15" by blast
next
  let ?w = "(world_init None)\<lparr>lockMode := True\<rparr>"
  have m: "(0 :: nat) < 2 ^ 24" by simp
  have fr: "vGateSegCountdown (gate ?w) = SEGS_PER_GATE" "TCNT1 (gate ?w) = 0"
    "vCtr1OvrFlows (gate ?w) = 0"
    by (simp_all add: world_init_fresh)
  from loop_burst [where w = ?w and m = 0 and rest = "[]" and d = False and a = 300, OF fr m]
  obtain w' where l: "loop False 300 ?w (gate_burst 0) = Some (w', [])" by auto
  have n: "nudge_reading 300"
    by (simp add: nudge_reading_def BTN_LOCK_THRESH_def NO_BUTS_THRESH_def)
  have k: "lockMode ?w" by simp
  from lock_edge_nudge_repeat [THEN conjunct2, THEN conjunct2, THEN conjunct2, THEN conjunct2, THEN conjunct2, THEN conjunct2,
      THEN conjunct2, THEN conjunct2, THEN conjunct2, THEN conjunct1, rule_format,
      of 300 ?w "gate_burst 0" w' "[]"] l n k
  have "fDDS w' = fDDS ?w" by blast
  then have "fDDS w' = fDDS (world_init None)" by simp
  with l show "\<exists>w'. loop False 300 ?w (gate_burst 0) = Some (w', [])
        \<and> fDDS w' = fDDS (world_init None)" by blast
next
  have m: "(516096 :: nat) < 2 ^ 24" by simp
  have a: "BTN_LOCK_THRESH \<le> 300" by (simp add: BTN_LOCK_THRESH_def)
  from loop_tracking_burst [where w = "world_init None" and m = 516096 and rest = "[]"
      and a = 300, OF world_init_fresh m a world_init_unlocked]
  obtain w' where l: "loop False 300 (world_init None) (gate_burst 516096) = Some (w', [])"
    and g: "getGatedCount (gate (world_init None)) (gate_burst 516096)
        = Some (516096, gate w', [])"
    and k: "\<not> lockMode w'"
    by auto
  have n: "nudge_reading 300"
    by (simp add: nudge_reading_def BTN_LOCK_THRESH_def NO_BUTS_THRESH_def)
  have b: "NO_BUTS_THRESH < 1023" by (simp add: NO_BUTS_THRESH_def)
  from lock_edge_nudge_repeat [THEN conjunct2, THEN conjunct2, THEN conjunct2, THEN conjunct2, THEN conjunct2, THEN conjunct2,
      THEN conjunct2, THEN conjunct2, THEN conjunct2, THEN conjunct2, THEN conjunct1,
      rule_format, of 300 "world_init None" "gate_burst 516096" w' "[]"] l n
  have f: "\<exists>c. getGatedCount (gate (world_init None)) (gate_burst 516096)
          = Some (c, gate w', [])
        \<and> fDDS w' = (if lockMode (world_init None) then fDDS (world_init None)
             else double_to_uint32 (double_round (uint32_to_double c
               * scaleFactor (world_init None))))"
    and s: "\<forall>a0. NO_BUTS_THRESH < a0 \<longrightarrow>
           (\<exists>w0. loop False a0 (world_init None) (gate_burst 516096) = Some (w0, [])
              \<and> fDDS w0 = fDDS w' \<and> lockMode w0 = lockMode w' \<and> ddsTraffic w0 = ddsTraffic w')"
    by blast+
  from f g have "fDDS w' = double_to_uint32 (double_round (uint32_to_double 516096
               * scaleFactor (world_init None)))"
    by (auto simp: world_init_unlocked)
  then have v: "fDDS w' = 5249999"
    unfolding product_516096 by (simp add: double_to_uint32_def)
  from s b obtain w0 where
    "loop False 1023 (world_init None) (gate_burst 516096) = Some (w0, [])"
    "fDDS w0 = fDDS w'" "ddsTraffic w0 = ddsTraffic w'" by blast
  with l n k v show "\<exists>w' w0. loop False 300 (world_init None) (gate_burst 516096) = Some (w', [])
        \<and> nudge_reading 300 \<and> \<not> lockMode w' \<and> fDDS w' = 5249999
        \<and> loop False 1023 (world_init None) (gate_burst 516096) = Some (w0, [])
        \<and> fDDS w0 = fDDS w' \<and> ddsTraffic w0 = ddsTraffic w'" by blast
qed

end
